theory Spec2Isabelle
  imports Main
begin

section \<open>Data model of the first-fit simulator (ff\_sim.c, lines 6--42)\<close>

text \<open>
  The three capacity macros, the three element structs and the aggregate
  \<open>SystemMemory\<close>. The C arrays have fixed length; they are lists whose length
  is the macro, together with the element counters the struct keeps beside them.
  Addresses, sizes and process ids are C \<open>int\<close>s (32 bits, two's complement).
  They are integers between \<open>INT_MIN\<close> and \<open>INT_MAX\<close>, and every sum or
  difference the program forms on them goes through \<open>int_wrap\<close>, which reduces
  the mathematical result to that range the way the machine addition does.
  Counters and the queue front are only ever non-negative and are natural numbers;
  the queue rear starts at \<open>-1\<close> and stays an integer. The 0/1 flags are booleans.
  The fields \<open>size\<close>, \<open>id\<close> and the second \<open>memory_size\<close> carry a suffix,
  since these names are taken.
\<close>

definition MAX_BLOCKS :: nat where
  "MAX_BLOCKS = 50"

definition MAX_PROCESSES :: nat where
  "MAX_PROCESSES = 50"

definition MAX_WAIT_QUEUE :: nat where
  "MAX_WAIT_QUEUE = 50"

definition INT_MAX :: int where
  "INT_MAX = 2147483647"

definition INT_MIN :: int where
  "INT_MIN = - 2147483648"

text \<open>
  The value an \<open>int\<close> variable holds after an operation whose mathematical result
  is \<open>x\<close>: \<open>x\<close> itself when it is representable, otherwise \<open>x\<close> reduced modulo
  \<open>2\<^sup>3\<^sup>2\<close> into the range of \<open>int\<close>. (Signed overflow is undefined in C; the
  compiled program wraps around.)
\<close>

definition int_wrap :: "int \<Rightarrow> int" where
  "int_wrap x = (x + 2147483648) mod 4294967296 - 2147483648"

record MemoryBlock =
  start :: int
  size_b :: int
  is_free :: bool

record Process =
  id_p :: int
  memory_address :: int
  memory_size :: int
  is_active :: bool

record WaitingProcess =
  process_id :: int
  memory_size_w :: int

record SystemMemory =
  blocks :: "MemoryBlock list"
  processes :: "Process list"
  wait_queue :: "WaitingProcess list"
  num_blocks :: nat
  num_processes :: nat
  wait_queue_count :: nat
  wait_queue_front :: nat
  wait_queue_rear :: int

text \<open>
  A write past the end of \<open>blocks\<close> or \<open>processes\<close> is undefined behaviour in C.
  The model stops there and returns which array was overrun, with the state the
  program had reached when it issued the write.
\<close>

datatype fault = BlocksOutOfBounds | ProcessesOutOfBounds

type_synonym 'a result = "(fault \<times> SystemMemory) + 'a"

section \<open>initialize\_memory (lines 78--96)\<close>

text \<open>\<open>memset(sys, 0, sizeof(SystemMemory))\<close>: every field of every element is zero.\<close>

definition zero_memory :: SystemMemory where
  "zero_memory =
     \<lparr>blocks = replicate MAX_BLOCKS \<lparr>start = 0, size_b = 0, is_free = False\<rparr>,
      processes = replicate MAX_PROCESSES
        \<lparr>id_p = 0, memory_address = 0, memory_size = 0, is_active = False\<rparr>,
      wait_queue = replicate MAX_WAIT_QUEUE \<lparr>process_id = 0, memory_size_w = 0\<rparr>,
      num_blocks = 0, num_processes = 0, wait_queue_count = 0,
      wait_queue_front = 0, wait_queue_rear = 0\<rparr>"

text \<open>
  The loop of lines 84--89, running over the caller's \<open>block_sizes\<close> from index
  \<open>i\<close> with the running \<open>start_address\<close>.
\<close>

fun initialize_loop :: "MemoryBlock list \<Rightarrow> int list \<Rightarrow> nat \<Rightarrow> int \<Rightarrow> MemoryBlock list" where
  "initialize_loop bs [] i start_address = bs"
| "initialize_loop bs (sz # block_sizes) i start_address =
     initialize_loop (bs[i := \<lparr>start = start_address, size_b = sz, is_free = True\<rparr>])
       block_sizes (i + 1) (int_wrap (start_address + sz))"

text \<open>
  \<open>num_blocks\<close> is the length of \<open>block_sizes\<close>. The function itself does not
  check it against \<open>MAX_BLOCKS\<close> (\<open>main\<close> does, line 291): with more than
  \<open>MAX_BLOCKS\<close> sizes the loop fills the array and then writes past its end.
\<close>

definition initialize_memory :: "int list \<Rightarrow> SystemMemory result" where
  "initialize_memory block_sizes =
     (if MAX_BLOCKS < length block_sizes
      then Inl (BlocksOutOfBounds,
             zero_memory\<lparr>blocks := initialize_loop (blocks zero_memory)
                                      (take MAX_BLOCKS block_sizes) 0 0\<rparr>)
      else Inr (zero_memory
        \<lparr>blocks := initialize_loop (blocks zero_memory) block_sizes 0 0,
         num_blocks := length block_sizes,
         wait_queue_front := 0,
         wait_queue_rear := - 1,
         wait_queue_count := 0\<rparr>))"

section \<open>get\_total\_free\_memory (lines 99--108)\<close>

function total_free_loop :: "SystemMemory \<Rightarrow> nat \<Rightarrow> int \<Rightarrow> int" where
  "total_free_loop sys i total_free =
     (if i < num_blocks sys
      then total_free_loop sys (i + 1)
             (if is_free (blocks sys ! i)
              then int_wrap (total_free + size_b (blocks sys ! i))
              else total_free)
      else total_free)"
  by pat_completeness auto
termination
  by (relation "measure (\<lambda>(sys, i, total_free). num_blocks sys - i)") auto

declare total_free_loop.simps [simp del]

definition get_total_free_memory :: "SystemMemory \<Rightarrow> int" where
  "get_total_free_memory sys = total_free_loop sys 0 0"

section \<open>add\_to\_wait\_queue (lines 111--126)\<close>

text \<open>
  Returns the updated state and the C return value (1 enqueued, 0 queue full).
  \<open>wait_queue_rear\<close> is \<open>-1\<close> or a previous remainder, so the dividend of
  \<open>%\<close> is never negative and C's remainder is \<open>mod\<close>.
\<close>

definition add_to_wait_queue :: "SystemMemory \<Rightarrow> int \<Rightarrow> int \<Rightarrow> SystemMemory \<times> int" where
  "add_to_wait_queue sys pid sz =
     (if MAX_WAIT_QUEUE \<le> wait_queue_count sys then (sys, 0)
      else
        let rear = (wait_queue_rear sys + 1) mod int MAX_WAIT_QUEUE in
        (sys\<lparr>wait_queue_rear := rear,
             wait_queue := (wait_queue sys)[nat rear := \<lparr>process_id = pid, memory_size_w = sz\<rparr>],
             wait_queue_count := wait_queue_count sys + 1\<rparr>, 1))"

section \<open>first\_fit\_allocate (lines 160--201)\<close>

text \<open>The shifting loop of lines 170--172, \<open>j\<close> counting down to \<open>i + 2\<close>.\<close>

function shift_blocks :: "MemoryBlock list \<Rightarrow> nat \<Rightarrow> nat \<Rightarrow> MemoryBlock list" where
  "shift_blocks bs i j =
     (if i + 1 < j then shift_blocks (bs[j := bs ! (j - 1)]) i (j - 1) else bs)"
  by pat_completeness auto
termination
  by (relation "measure (\<lambda>(bs, i, j). j)") auto

declare shift_blocks.simps [simp del]

text \<open>
  Lines 165--183 for the chosen index \<open>i\<close>: mark an exact fit, otherwise split.
  A split writes index \<open>num_blocks\<close> first (in the shifting loop when \<open>i\<close> is
  not the last block, as \<open>blocks[i + 1]\<close> when it is), which is out of bounds when
  the table is full; the source has no check.
\<close>

definition split_at :: "SystemMemory \<Rightarrow> int \<Rightarrow> nat \<Rightarrow> SystemMemory result" where
  "split_at sys sz i =
     (if size_b (blocks sys ! i) = sz
      then Inr (sys\<lparr>blocks := (blocks sys)[i := (blocks sys ! i)\<lparr>is_free := False\<rparr>]\<rparr>)
      else if MAX_BLOCKS \<le> num_blocks sys then Inl (BlocksOutOfBounds, sys)
      else
        let bs1 = shift_blocks (blocks sys) i (num_blocks sys);
            bs2 = bs1[i + 1 := \<lparr>start = int_wrap (start (bs1 ! i) + sz),
                                size_b = int_wrap (size_b (bs1 ! i) - sz),
                                is_free = True\<rparr>];
            bs3 = bs2[i := (bs2 ! i)\<lparr>size_b := sz\<rparr>];
            bs4 = bs3[i := (bs3 ! i)\<lparr>is_free := False\<rparr>]
        in Inr (sys\<lparr>blocks := bs4, num_blocks := num_blocks sys + 1\<rparr>))"

text \<open>
  Lines 186--192: append the process entry and return the block's start. The write
  to \<open>processes[num_processes]\<close> is out of bounds when the table is full; the
  source has no check.
\<close>

definition record_process :: "SystemMemory \<Rightarrow> int \<Rightarrow> int \<Rightarrow> nat \<Rightarrow> (SystemMemory \<times> int) result" where
  "record_process sys pid sz i =
     (if MAX_PROCESSES \<le> num_processes sys then Inl (ProcessesOutOfBounds, sys)
      else Inr (sys\<lparr>processes := (processes sys)[num_processes sys :=
                       \<lparr>id_p = pid, memory_address = start (blocks sys ! i),
                        memory_size = sz, is_active = True\<rparr>],
                     num_processes := num_processes sys + 1\<rparr>,
                start (blocks sys ! i)))"

text \<open>
  The scan of lines 162--194 from index \<open>i\<close>, and lines 196--200 after it: both
  outcomes of \<open>add_to_wait_queue\<close> return \<open>-1\<close>.
\<close>

function first_fit_loop :: "SystemMemory \<Rightarrow> int \<Rightarrow> int \<Rightarrow> nat \<Rightarrow> (SystemMemory \<times> int) result" where
  "first_fit_loop sys pid sz i =
     (if i < num_blocks sys
      then
        if is_free (blocks sys ! i) \<and> sz \<le> size_b (blocks sys ! i)
        then (case split_at sys sz i of
                Inl f \<Rightarrow> Inl f
              | Inr sys1 \<Rightarrow> record_process sys1 pid sz i)
        else first_fit_loop sys pid sz (i + 1)
      else
        (case add_to_wait_queue sys pid sz of
           (sys1, added) \<Rightarrow> if added \<noteq> 0 then Inr (sys1, - 1) else Inr (sys1, - 1)))"
  by pat_completeness auto
termination
  by (relation "measure (\<lambda>(sys, pid, sz, i). num_blocks sys - i)") auto

declare first_fit_loop.simps [simp del]

definition first_fit_allocate :: "SystemMemory \<Rightarrow> int \<Rightarrow> int \<Rightarrow> (SystemMemory \<times> int) result" where
  "first_fit_allocate sys pid sz = first_fit_loop sys pid sz 0"

section \<open>try\_allocate\_waiting\_process (lines 129--157)\<close>

definition try_allocate_waiting_process :: "SystemMemory \<Rightarrow> (SystemMemory \<times> int) result" where
  "try_allocate_waiting_process sys =
     (if wait_queue_count sys = 0 then Inr (sys, 0)
      else
        let current_waiting = wait_queue sys ! wait_queue_front sys;
            total_free = get_total_free_memory sys
        in
          if total_free < memory_size_w current_waiting then Inr (sys, 0)
          else
            (case first_fit_allocate sys (process_id current_waiting)
                    (memory_size_w current_waiting) of
               Inl f \<Rightarrow> Inl f
             | Inr (sys1, address) \<Rightarrow>
                 if address \<noteq> - 1
                 then Inr (sys1\<lparr>wait_queue_front :=
                                   (wait_queue_front sys1 + 1) mod MAX_WAIT_QUEUE,
                                 wait_queue_count := wait_queue_count sys1 - 1\<rparr>, 1)
                 else Inr (sys1, 0)))"

section \<open>free\_memory (lines 204--225)\<close>

text \<open>
  A successful allocation is recognised by its address; when the scan fails the
  address is \<open>-1\<close>. The two lemmas are what the termination of the drain rests on:
  an attempt that returns non-zero has taken one request off the queue.
\<close>

lemma first_fit_loop_count:
  "first_fit_loop sys pid sz i = Inr (sys1, address) \<Longrightarrow> address \<noteq> - 1 \<Longrightarrow>
   wait_queue_count sys1 = wait_queue_count sys"
proof (induction sys pid sz i rule: first_fit_loop.induct)
  case (1 sys pid sz i)
  note unfold = first_fit_loop.simps [of sys pid sz i]
  show ?case
  proof (cases "i < num_blocks sys")
    case False
    with "1.prems" unfold show ?thesis
      by (simp split: prod.splits if_splits)
  next
    case True
    show ?thesis
    proof (cases "is_free (blocks sys ! i) \<and> sz \<le> size_b (blocks sys ! i)")
      case False
      with True "1.IH" "1.prems" unfold show ?thesis by simp
    next
      case fit: True
      with True "1.prems" unfold show ?thesis
        by (auto simp: split_at_def record_process_def Let_def
                 split: sum.splits if_splits)
    qed
  qed
qed

lemma try_allocate_waiting_process_count:
  assumes "try_allocate_waiting_process sys = Inr (sys1, allocated)" and "allocated \<noteq> 0"
  shows "wait_queue_count sys1 < wait_queue_count sys"
proof -
  let ?w = "wait_queue sys ! wait_queue_front sys"
  from assms have pos: "wait_queue_count sys \<noteq> 0"
    by (auto simp: try_allocate_waiting_process_def Let_def split: if_splits)
  with assms obtain sys2 address where
    ff: "first_fit_loop sys (process_id ?w) (memory_size_w ?w) 0 = Inr (sys2, address)"
    and a: "address \<noteq> - 1"
    and s1: "sys1 = sys2\<lparr>wait_queue_front := (wait_queue_front sys2 + 1) mod MAX_WAIT_QUEUE,
                          wait_queue_count := wait_queue_count sys2 - 1\<rparr>"
    by (auto simp: try_allocate_waiting_process_def first_fit_allocate_def Let_def
             split: sum.splits prod.splits if_splits)
  from first_fit_loop_count [OF ff a] pos s1 show ?thesis by simp
qed

text \<open>
  Line 218, \<open>while (try_allocate_waiting_process(sys));\<close>: repeat while the
  attempt returns non-zero.
\<close>

function drain_wait_queue :: "SystemMemory \<Rightarrow> SystemMemory result" where
  "drain_wait_queue sys =
     (case try_allocate_waiting_process sys of
        Inl f \<Rightarrow> Inl f
      | Inr (sys1, allocated) \<Rightarrow>
          if allocated \<noteq> 0 then drain_wait_queue sys1 else Inr sys1)"
  by pat_completeness auto
termination
proof (relation "measure wait_queue_count")
  show "wf (measure wait_queue_count)" by simp
next
  fix sys x sys1 allocated
  assume "try_allocate_waiting_process sys = Inr x" "(sys1, allocated) = x" "allocated \<noteq> 0"
  then show "(sys1, sys) \<in> measure wait_queue_count"
    using try_allocate_waiting_process_count [of sys sys1 allocated] by simp
qed

declare drain_wait_queue.simps [simp del]

text \<open>
  \<open>free_memory\<close> returns nothing; what the caller sees is which of its two
  messages it printed before returning: "Memory for Process freed" (line 215,
  followed by the drain and the \<open>return\<close> of line 219) or "Process not found"
  (line 224, after the outer loop has run to its end).
\<close>

datatype free_result = Freed | NotFound

text \<open>
  The inner loop of lines 212--221 from index \<open>j\<close>, for the address of the
  process just deactivated: \<open>Some\<close> when a block with that start was found (the
  function returns from there), \<open>None\<close> when the loop ran to its end.
\<close>

function free_block_loop :: "SystemMemory \<Rightarrow> int \<Rightarrow> nat \<Rightarrow> SystemMemory result option" where
  "free_block_loop sys address j =
     (if j < num_blocks sys
      then
        if start (blocks sys ! j) = address
        then Some (drain_wait_queue
                     (sys\<lparr>blocks := (blocks sys)[j := (blocks sys ! j)\<lparr>is_free := True\<rparr>]\<rparr>))
        else free_block_loop sys address (j + 1)
      else None)"
  by pat_completeness auto
termination
  by (relation "measure (\<lambda>(sys, address, j). num_blocks sys - j)") auto

declare free_block_loop.simps [simp del]

text \<open>
  The outer loop of lines 206--223 from index \<open>i\<close>. When the inner loop finds no
  block the process stays deactivated and the outer loop goes on with \<open>i + 1\<close>.
\<close>

function free_memory_loop :: "SystemMemory \<Rightarrow> int \<Rightarrow> nat \<Rightarrow> (free_result \<times> SystemMemory) result" where
  "free_memory_loop sys pid i =
     (if i < num_processes sys
      then
        if id_p (processes sys ! i) = pid \<and> is_active (processes sys ! i)
        then
          (case free_block_loop
                  (sys\<lparr>processes := (processes sys)[i := (processes sys ! i)\<lparr>is_active := False\<rparr>]\<rparr>)
                  (memory_address (processes sys ! i)) 0 of
             Some (Inl f) \<Rightarrow> Inl f
           | Some (Inr sys2) \<Rightarrow> Inr (Freed, sys2)
           | None \<Rightarrow>
               free_memory_loop
                 (sys\<lparr>processes := (processes sys)[i := (processes sys ! i)\<lparr>is_active := False\<rparr>]\<rparr>)
                 pid (i + 1))
        else free_memory_loop sys pid (i + 1)
      else Inr (NotFound, sys))"
  by pat_completeness auto
termination
  by (relation "measure (\<lambda>(sys, pid, i). num_processes sys - i)") auto

declare free_memory_loop.simps [simp del]

definition free_memory :: "SystemMemory \<Rightarrow> int \<Rightarrow> (free_result \<times> SystemMemory) result" where
  "free_memory sys pid = free_memory_loop sys pid 0"

section \<open>The menu loop of main (lines 305--340)\<close>

text \<open>
  A request is one pass through the menu: choice 1 with the size read, or choice 2
  with the process number read. \<open>main\<close> keeps the next process id beside the
  system state, starts it at 1 and increments it at every allocation request.
  What \<open>main\<close> prints after \<open>first_fit_allocate\<close> depends on the address only.
\<close>

datatype request = Allocate int | Free int

datatype report = AllocatedAt int | AddedToWaitQueue

definition allocate_report :: "int \<Rightarrow> report" where
  "allocate_report address =
     (if address \<noteq> - 1 then AllocatedAt address else AddedToWaitQueue)"

fun main_step :: "SystemMemory \<times> int \<Rightarrow> request \<Rightarrow> (SystemMemory \<times> int) result" where
  "main_step (sys, next_id) (Allocate sz) =
     (case first_fit_allocate sys next_id sz of
        Inl f \<Rightarrow> Inl f
      | Inr (sys1, address) \<Rightarrow> Inr (sys1, int_wrap (next_id + 1)))"
| "main_step (sys, next_id) (Free pid) =
     (case free_memory sys pid of
        Inl f \<Rightarrow> Inl f
      | Inr (r, sys1) \<Rightarrow> Inr (sys1, next_id))"

fun main_loop :: "SystemMemory \<times> int \<Rightarrow> request list \<Rightarrow> (SystemMemory \<times> int) result" where
  "main_loop st [] = Inr st"
| "main_loop st (r # rs) =
     (case main_step st r of
        Inl f \<Rightarrow> Inl f
      | Inr st1 \<Rightarrow> main_loop st1 rs)"

text \<open>
  A run of the program: the block sizes entered, then the requests. \<open>main\<close>
  accepts between 1 and \<open>MAX_BLOCKS\<close> block sizes, each at least 1, and
  allocation sizes of at least 1 (\<open>get_valid_integer\<close>, lines 291, 298, 317).
\<close>

definition simulate :: "int list \<Rightarrow> request list \<Rightarrow> (SystemMemory \<times> int) result" where
  "simulate block_sizes rs =
     (case initialize_memory block_sizes of
        Inl f \<Rightarrow> Inl f
      | Inr sys \<Rightarrow> main_loop (sys, 1) rs)"

fun valid_request :: "request \<Rightarrow> bool" where
  "valid_request (Allocate sz) = (1 \<le> sz)"
| "valid_request (Free pid) = True"

section \<open>What print\_memory\_layout shows (lines 228--270)\<close>

text \<open>
  The display reads the first \<open>num_blocks\<close> blocks, the first
  \<open>num_processes\<close> process entries (printing the active ones) and the
  \<open>wait_queue_count\<close> queue slots from the front, wrapping around. These are the
  block sequence, the process table and the wait queue that the properties below
  speak about.
\<close>

definition block_table :: "SystemMemory \<Rightarrow> MemoryBlock list" where
  "block_table sys = take (num_blocks sys) (blocks sys)"

definition process_table :: "SystemMemory \<Rightarrow> Process list" where
  "process_table sys = take (num_processes sys) (processes sys)"

definition active_processes :: "SystemMemory \<Rightarrow> Process list" where
  "active_processes sys = filter is_active (process_table sys)"

definition waiting :: "SystemMemory \<Rightarrow> WaitingProcess list" where
  "waiting sys =
     map (\<lambda>i. wait_queue sys ! ((wait_queue_front sys + i) mod MAX_WAIT_QUEUE))
       [0..<wait_queue_count sys]"

text \<open>The test of line 163 for the block at index \<open>i\<close>.\<close>

definition fits :: "SystemMemory \<Rightarrow> int \<Rightarrow> nat \<Rightarrow> bool" where
  "fits sys sz i = (is_free (blocks sys ! i) \<and> sz \<le> size_b (blocks sys ! i))"

text \<open>
  What lines 165--183 leave in the place of a chosen block \<open>b\<close> for a request of
  \<open>sz\<close>: the block itself, allocated, when the sizes agree; otherwise the allocated
  part followed by the free remainder.
\<close>

definition placed :: "MemoryBlock \<Rightarrow> int \<Rightarrow> MemoryBlock list" where
  "placed b sz =
     (if size_b b = sz then [\<lparr>start = start b, size_b = sz, is_free = False\<rparr>]
      else [\<lparr>start = start b, size_b = sz, is_free = False\<rparr>,
            \<lparr>start = int_wrap (start b + sz), size_b = int_wrap (size_b b - sz),
             is_free = True\<rparr>])"

text \<open>
  A block sequence that covers the addresses from \<open>a\<close> upwards without gap or
  overlap: each block is non-empty and starts where the one before it ends.
\<close>

fun contiguous :: "int \<Rightarrow> MemoryBlock list \<Rightarrow> bool" where
  "contiguous a [] = True"
| "contiguous a (b # bs) = (start b = a \<and> 0 < size_b b \<and> contiguous (a + size_b b) bs)"

text \<open>
  The state \<open>initialize_memory\<close> builds for the block sizes
  [100, 500, 200, 300, 600], written out; the examples below start from it.
\<close>

definition example_memory :: SystemMemory where
  "example_memory =
     \<lparr>blocks = [\<lparr>start = 0, size_b = 100, is_free = True\<rparr>,
                \<lparr>start = 100, size_b = 500, is_free = True\<rparr>,
                \<lparr>start = 600, size_b = 200, is_free = True\<rparr>,
                \<lparr>start = 800, size_b = 300, is_free = True\<rparr>,
                \<lparr>start = 1100, size_b = 600, is_free = True\<rparr>] @
               replicate 45 \<lparr>start = 0, size_b = 0, is_free = False\<rparr>,
      processes = replicate 50
        \<lparr>id_p = 0, memory_address = 0, memory_size = 0, is_active = False\<rparr>,
      wait_queue = replicate 50 \<lparr>process_id = 0, memory_size_w = 0\<rparr>,
      num_blocks = 5, num_processes = 0, wait_queue_count = 0,
      wait_queue_front = 0, wait_queue_rear = - 1\<rparr>"

text \<open>
  The state \<open>initialize_memory\<close> builds for 50 blocks of size 2: the block table
  is full.
\<close>

definition full_memory :: SystemMemory where
  "full_memory =
     \<lparr>blocks = map (\<lambda>i. \<lparr>start = 2 * int i, size_b = 2, is_free = True\<rparr>) [0..<50],
      processes = replicate 50
        \<lparr>id_p = 0, memory_address = 0, memory_size = 0, is_active = False\<rparr>,
      wait_queue = replicate 50 \<lparr>process_id = 0, memory_size_w = 0\<rparr>,
      num_blocks = 50, num_processes = 0, wait_queue_count = 0,
      wait_queue_front = 0, wait_queue_rear = - 1\<rparr>"

text \<open>
  The state reached from block sizes [300, 50] by the requests allocate 300,
  allocate 50, allocate 200, allocate 50, free 2: the 200 asked for by process 3
  waits at the head of the queue, the 50 asked for by process 4 behind it, and the
  only free block has size 50.
\<close>

definition blocked_memory :: SystemMemory where
  "blocked_memory =
     \<lparr>blocks = [\<lparr>start = 0, size_b = 300, is_free = False\<rparr>,
                \<lparr>start = 300, size_b = 50, is_free = True\<rparr>] @
               replicate 48 \<lparr>start = 0, size_b = 0, is_free = False\<rparr>,
      processes = [\<lparr>id_p = 1, memory_address = 0, memory_size = 300, is_active = True\<rparr>,
                   \<lparr>id_p = 2, memory_address = 300, memory_size = 50, is_active = False\<rparr>] @
                  replicate 48 \<lparr>id_p = 0, memory_address = 0, memory_size = 0, is_active = False\<rparr>,
      wait_queue = [\<lparr>process_id = 3, memory_size_w = 200\<rparr>,
                    \<lparr>process_id = 4, memory_size_w = 50\<rparr>] @
                   replicate 48 \<lparr>process_id = 0, memory_size_w = 0\<rparr>,
      num_blocks = 2, num_processes = 2, wait_queue_count = 2,
      wait_queue_front = 0, wait_queue_rear = 1\<rparr>"

text \<open>
  The block table is within its bounds and its block sequence covers the addresses
  from 0 to \<open>space\<close> without gap or overlap, where \<open>space\<close> is representable
  as an \<open>int\<close>.
\<close>

definition blocks_ok :: "SystemMemory \<Rightarrow> int \<Rightarrow> bool" where
  "blocks_ok sys space =
     (length (blocks sys) = MAX_BLOCKS \<and> num_blocks sys \<le> MAX_BLOCKS \<and>
      contiguous 0 (block_table sys) \<and>
      sum_list (map size_b (block_table sys)) = space \<and> space \<le> INT_MAX)"

text \<open>
  The process table is within its bounds, every active entry has its block (same
  start, same size, marked allocated), and no two active entries share an address.
\<close>

definition processes_ok :: "SystemMemory \<Rightarrow> bool" where
  "processes_ok sys =
     (length (processes sys) = MAX_PROCESSES \<and> num_processes sys \<le> MAX_PROCESSES \<and>
      (\<forall>p \<in> set (active_processes sys). \<exists>b \<in> set (block_table sys).
         start b = memory_address p \<and> size_b b = memory_size p \<and> \<not> is_free b) \<and>
      distinct (map memory_address (active_processes sys)))"

text \<open>
  The circular queue is within its bounds, the rear is one slot before the first
  unused one, and every queued request asks for a positive size.
\<close>

definition queue_ok :: "SystemMemory \<Rightarrow> bool" where
  "queue_ok sys =
     (length (wait_queue sys) = MAX_WAIT_QUEUE \<and>
      wait_queue_count sys \<le> MAX_WAIT_QUEUE \<and>
      wait_queue_front sys < MAX_WAIT_QUEUE \<and>
      (wait_queue_rear sys + 1) mod int MAX_WAIT_QUEUE =
        int ((wait_queue_front sys + wait_queue_count sys) mod MAX_WAIT_QUEUE) \<and>
      (\<forall>w \<in> set (waiting sys). 0 < memory_size_w w))"

definition invariant :: "SystemMemory \<Rightarrow> int \<Rightarrow> bool" where
  "invariant sys space = (blocks_ok sys space \<and> processes_ok sys \<and> queue_ok sys)"

section \<open>Auxiliary facts\<close>

subsection \<open>The shifting loop and the split\<close>

lemma int_wrap_id: "INT_MIN \<le> x \<Longrightarrow> x \<le> INT_MAX \<Longrightarrow> int_wrap x = x"
  by (simp add: int_wrap_def INT_MIN_def INT_MAX_def)

lemma shift_blocks_length [simp]: "length (shift_blocks bs i j) = length bs"
  by (induction bs i j rule: shift_blocks.induct) (simp add: shift_blocks.simps)

lemma shift_blocks_nth:
  "j < length bs \<Longrightarrow>
   shift_blocks bs i j ! k = (if i + 1 < k \<and> k \<le> j then bs ! (k - 1) else bs ! k)"
proof (induction bs i j rule: shift_blocks.induct)
  case (1 bs i j)
  show ?case
  proof (cases "i + 1 < j")
    case False
    then show ?thesis by (auto simp: shift_blocks.simps [of bs i j])
  next
    case True
    with "1.prems" have IH:
      "shift_blocks (bs[j := bs ! (j - 1)]) i (j - 1) ! k =
       (if i + 1 < k \<and> k \<le> j - 1 then bs[j := bs ! (j - 1)] ! (k - 1)
        else bs[j := bs ! (j - 1)] ! k)"
      using "1.IH" by simp
    from True have "shift_blocks bs i j = shift_blocks (bs[j := bs ! (j - 1)]) i (j - 1)"
      by (simp add: shift_blocks.simps [of bs i j])
    with IH True "1.prems" show ?thesis
      by (auto simp: nth_list_update)
  qed
qed

lemma split_at_split:
  assumes ne: "size_b (blocks sys ! i) \<noteq> sz"
    and room: "num_blocks sys < MAX_BLOCKS"
    and len: "length (blocks sys) = MAX_BLOCKS"
    and i: "i < num_blocks sys"
  obtains sys1 where "split_at sys sz i = Inr sys1"
    and "block_table sys1 =
           take i (block_table sys) @
           [\<lparr>start = start (blocks sys ! i), size_b = sz, is_free = False\<rparr>,
            \<lparr>start = int_wrap (start (blocks sys ! i) + sz),
             size_b = int_wrap (size_b (blocks sys ! i) - sz),
             is_free = True\<rparr>] @
           drop (i + 1) (block_table sys)"
    and "blocks sys1 ! i = \<lparr>start = start (blocks sys ! i), size_b = sz, is_free = False\<rparr>"
    and "num_blocks sys1 = num_blocks sys + 1"
    and "length (blocks sys1) = length (blocks sys)"
    and "sys1\<lparr>blocks := blocks sys, num_blocks := num_blocks sys\<rparr> = sys"
proof -
  let ?n = "num_blocks sys"
  let ?bs = "blocks sys"
  let ?b = "?bs ! i"
  define bs1 where "bs1 = shift_blocks ?bs i ?n"
  define bs4 where "bs4 = bs1[i + 1 := \<lparr>start = int_wrap (start ?b + sz), size_b = int_wrap (size_b ?b - sz), is_free = True\<rparr>,
      i := \<lparr>start = start ?b, size_b = sz, is_free = False\<rparr>]"
  define sys1 where "sys1 = sys\<lparr>blocks := bs4, num_blocks := ?n + 1\<rparr>"
  have n: "?n < length ?bs" using room len by simp
  have b1i: "bs1 ! i = ?b"
    using n i by (simp add: bs1_def shift_blocks_nth)
  have len1: "length bs1 = length ?bs" by (simp add: bs1_def)
  have upd: "?b\<lparr>size_b := sz, is_free := False\<rparr> =
      \<lparr>start = start ?b, size_b = sz, is_free = False\<rparr>"
    by (cases ?b) simp
  have eq: "split_at sys sz i = Inr sys1"
    using ne room n i len1 b1i
    by (simp add: upd split_at_def Let_def sys1_def bs4_def bs1_def [symmetric] list_update_swap [of i "Suc i"])
  have nth4: "bs4 ! k =
      (if k = i then \<lparr>start = start ?b, size_b = sz, is_free = False\<rparr>
       else if k = i + 1 then \<lparr>start = int_wrap (start ?b + sz), size_b = int_wrap (size_b ?b - sz), is_free = True\<rparr>
       else if i + 1 < k \<and> k \<le> ?n then ?bs ! (k - 1) else ?bs ! k)" for k
    using n i len1 by (auto simp: bs4_def nth_list_update bs1_def shift_blocks_nth)
  have "take (?n + 1) bs4 = take i (take ?n ?bs) @
           [\<lparr>start = start ?b, size_b = sz, is_free = False\<rparr>,
            \<lparr>start = int_wrap (start ?b + sz), size_b = int_wrap (size_b ?b - sz), is_free = True\<rparr>] @
           drop (i + 1) (take ?n ?bs)"
  proof (rule nth_equalityI)
    show "length (take (?n + 1) bs4) = length (take i (take ?n ?bs) @
           [\<lparr>start = start ?b, size_b = sz, is_free = False\<rparr>,
            \<lparr>start = int_wrap (start ?b + sz), size_b = int_wrap (size_b ?b - sz), is_free = True\<rparr>] @
           drop (i + 1) (take ?n ?bs))"
      using n i len1 by (simp add: bs4_def)
  next
    fix k assume "k < length (take (?n + 1) bs4)"
    then have k: "k \<le> ?n" using n len1 by (simp add: bs4_def)
    show "take (?n + 1) bs4 ! k = (take i (take ?n ?bs) @
           [\<lparr>start = start ?b, size_b = sz, is_free = False\<rparr>,
            \<lparr>start = int_wrap (start ?b + sz), size_b = int_wrap (size_b ?b - sz), is_free = True\<rparr>] @
           drop (i + 1) (take ?n ?bs)) ! k"
    proof -
      consider "k < i" | "k = i" | "k = i + 1" | "i + 1 < k" by linarith
      then show ?thesis
      proof cases
        case 4
        then obtain d where d: "k = i + 2 + d"
          using less_iff_Suc_add [of "i + 1" k] by auto
        with k n i show ?thesis
          by (simp add: nth4 nth_append min_def)
      qed (use k n i in \<open>auto simp: nth4 nth_append min_def\<close>)
    qed
  qed
  then have bt: "block_table sys1 =
           take i (block_table sys) @
           [\<lparr>start = start ?b, size_b = sz, is_free = False\<rparr>,
            \<lparr>start = int_wrap (start ?b + sz), size_b = int_wrap (size_b ?b - sz), is_free = True\<rparr>] @
           drop (i + 1) (block_table sys)"
    by (simp add: block_table_def sys1_def)
  have "blocks sys1 ! i = \<lparr>start = start ?b, size_b = sz, is_free = False\<rparr>"
    by (simp add: sys1_def nth4)
  then show thesis
  proof (rule that [OF eq bt])
    show "num_blocks sys1 = num_blocks sys + 1" by (simp add: sys1_def)
    show "length (blocks sys1) = length (blocks sys)" by (simp add: sys1_def bs4_def len1)
    show "sys1\<lparr>blocks := blocks sys, num_blocks := num_blocks sys\<rparr> = sys" by (simp add: sys1_def)
  qed
qed

lemma placed_exact_update:
  "size_b b = sz \<Longrightarrow> b\<lparr>is_free := False\<rparr> = \<lparr>start = start b, size_b = sz, is_free = False\<rparr>"
  by (cases b) simp

lemma split_at_effect:
  assumes k: "k < num_blocks sys"
    and len: "length (blocks sys) = MAX_BLOCKS"
    and nb: "num_blocks sys \<le> MAX_BLOCKS"
    and room: "size_b (blocks sys ! k) \<noteq> sz \<longrightarrow> num_blocks sys < MAX_BLOCKS"
  obtains sys1 where "split_at sys sz k = Inr sys1"
    and "block_table sys1 =
           take k (block_table sys) @ placed (blocks sys ! k) sz @ drop (k + 1) (block_table sys)"
    and "blocks sys1 ! k = \<lparr>start = start (blocks sys ! k), size_b = sz, is_free = False\<rparr>"
    and "num_blocks sys1 = (if size_b (blocks sys ! k) = sz then num_blocks sys else num_blocks sys + 1)"
    and "length (blocks sys1) = length (blocks sys)"
    and "sys1\<lparr>blocks := blocks sys, num_blocks := num_blocks sys\<rparr> = sys"
proof (cases "size_b (blocks sys ! k) = sz")
  case True
  let ?sys1 = "sys\<lparr>blocks := (blocks sys)[k := (blocks sys ! k)\<lparr>is_free := False\<rparr>]\<rparr>"
  from k len nb have kl: "k < length (blocks sys)" by simp
  show ?thesis
  proof (rule that [of ?sys1])
    show "split_at sys sz k = Inr ?sys1" using True by (simp add: split_at_def)
    have "block_table ?sys1 = (block_table sys)[k := (blocks sys ! k)\<lparr>is_free := False\<rparr>]"
      by (simp add: block_table_def take_update_swap)
    also have "\<dots> = take k (block_table sys) @
        [(blocks sys ! k)\<lparr>is_free := False\<rparr>] @ drop (k + 1) (block_table sys)"
      using k kl by (simp add: upd_conv_take_nth_drop block_table_def)
    finally show "block_table ?sys1 =
           take k (block_table sys) @ placed (blocks sys ! k) sz @ drop (k + 1) (block_table sys)"
      using True by (simp add: placed_def placed_exact_update)
    show "blocks ?sys1 ! k = \<lparr>start = start (blocks sys ! k), size_b = sz, is_free = False\<rparr>"
      using True kl by (simp add: placed_exact_update)
  qed (use True in simp_all)
next
  case False
  with room have "num_blocks sys < MAX_BLOCKS" by simp
  from split_at_split [OF False this len k] False show ?thesis
    by (metis that placed_def)
qed

subsection \<open>The scan\<close>

lemma first_fit_loop_skip:
  "i \<le> k \<Longrightarrow> k < num_blocks sys \<Longrightarrow> \<forall>j. i \<le> j \<and> j < k \<longrightarrow> \<not> fits sys sz j \<Longrightarrow>
   first_fit_loop sys pid sz i = first_fit_loop sys pid sz k"
proof (induction "k - i" arbitrary: i)
  case 0
  then show ?case by simp
next
  case (Suc d)
  then have "i < k" "i < num_blocks sys" "\<not> fits sys sz i" by auto
  then have "first_fit_loop sys pid sz i = first_fit_loop sys pid sz (i + 1)"
    by (subst first_fit_loop.simps) (auto simp: fits_def)
  also have "\<dots> = first_fit_loop sys pid sz k"
    using Suc by (intro Suc.hyps) auto
  finally show ?case .
qed

lemma first_fit_loop_at:
  "k < num_blocks sys \<Longrightarrow> fits sys sz k \<Longrightarrow>
   first_fit_loop sys pid sz k =
     (case split_at sys sz k of Inl f \<Rightarrow> Inl f | Inr sys1 \<Rightarrow> record_process sys1 pid sz k)"
  by (simp add: first_fit_loop.simps [of sys pid sz k] fits_def)

lemma first_fit_loop_none:
  "\<forall>j. i \<le> j \<and> j < num_blocks sys \<longrightarrow> \<not> fits sys sz j \<Longrightarrow>
   first_fit_loop sys pid sz i = Inr (fst (add_to_wait_queue sys pid sz), - 1)"
proof (induction "num_blocks sys - i" arbitrary: i)
  case 0
  then show ?case
    by (simp add: first_fit_loop.simps [of sys pid sz i] split: prod.splits)
next
  case (Suc d)
  then have "i < num_blocks sys" "\<not> fits sys sz i" by auto
  then have "first_fit_loop sys pid sz i = first_fit_loop sys pid sz (i + 1)"
    by (subst first_fit_loop.simps) (auto simp: fits_def)
  also have "\<dots> = Inr (fst (add_to_wait_queue sys pid sz), - 1)"
    using Suc by (intro Suc.hyps) auto
  finally show ?case .
qed

lemma first_fit_allocate_found:
  assumes "k < num_blocks sys" "fits sys sz k" "\<forall>j<k. \<not> fits sys sz j"
  shows "first_fit_allocate sys pid sz =
     (case split_at sys sz k of Inl f \<Rightarrow> Inl f | Inr sys1 \<Rightarrow> record_process sys1 pid sz k)"
  using assms first_fit_loop_skip [of 0 k sys sz pid] first_fit_loop_at [of k sys sz pid]
  by (simp add: first_fit_allocate_def)

lemma first_fit_allocate_not_found:
  assumes "\<forall>j<num_blocks sys. \<not> fits sys sz j"
  shows "first_fit_allocate sys pid sz = Inr (fst (add_to_wait_queue sys pid sz), - 1)"
  using assms first_fit_loop_none [of 0 sys sz pid]
  by (simp add: first_fit_allocate_def)

lemma first_fit_cases:
  obtains (found) k where "k < num_blocks sys" "fits sys sz k" "\<forall>j<k. \<not> fits sys sz j"
  | (none) "\<forall>j<num_blocks sys. \<not> fits sys sz j"
proof (cases "\<exists>j<num_blocks sys. fits sys sz j")
  case False
  then show ?thesis using none by blast
next
  case True
  define k where "k = (LEAST j. j < num_blocks sys \<and> fits sys sz j)"
  from True have "\<exists>j. j < num_blocks sys \<and> fits sys sz j" by blast
  then have "k < num_blocks sys \<and> fits sys sz k"
    unfolding k_def by (rule LeastI_ex)
  moreover have "\<forall>j<k. \<not> fits sys sz j"
  proof (intro allI impI)
    fix j assume "j < k"
    then have "\<not> (j < num_blocks sys \<and> fits sys sz j)"
      unfolding k_def by (rule not_less_Least)
    moreover from \<open>j < k\<close> \<open>k < num_blocks sys \<and> fits sys sz k\<close> have "j < num_blocks sys" by simp
    ultimately show "\<not> fits sys sz j" by simp
  qed
  ultimately show ?thesis using found by blast
qed

lemma first_fit_allocate_effect:
  assumes k: "k < num_blocks sys" "fits sys sz k" "\<forall>j<k. \<not> fits sys sz j"
    and lenb: "length (blocks sys) = MAX_BLOCKS"
    and nb: "num_blocks sys \<le> MAX_BLOCKS"
    and lenp: "length (processes sys) = MAX_PROCESSES"
    and roomb: "size_b (blocks sys ! k) \<noteq> sz \<longrightarrow> num_blocks sys < MAX_BLOCKS"
    and roomp: "num_processes sys < MAX_PROCESSES"
  obtains sys' where
    "first_fit_allocate sys pid sz = Inr (sys', start (blocks sys ! k))"
    and "block_table sys' =
           take k (block_table sys) @ placed (blocks sys ! k) sz @ drop (k + 1) (block_table sys)"
    and "process_table sys' = process_table sys @
           [\<lparr>id_p = pid, memory_address = start (blocks sys ! k), memory_size = sz,
             is_active = True\<rparr>]"
    and "length (blocks sys') = MAX_BLOCKS"
    and "length (processes sys') = MAX_PROCESSES"
    and "num_blocks sys' =
           (if size_b (blocks sys ! k) = sz then num_blocks sys else num_blocks sys + 1)"
    and "num_processes sys' = num_processes sys + 1"
    and "wait_queue sys' = wait_queue sys"
    and "wait_queue_count sys' = wait_queue_count sys"
    and "wait_queue_front sys' = wait_queue_front sys"
    and "wait_queue_rear sys' = wait_queue_rear sys"
proof -
  let ?p = "\<lparr>id_p = pid, memory_address = start (blocks sys ! k), memory_size = sz,
             is_active = True\<rparr>"
  from split_at_effect [OF k(1) lenb nb roomb]
  obtain sys1 where sp: "split_at sys sz k = Inr sys1"
    and bt: "block_table sys1 =
           take k (block_table sys) @ placed (blocks sys ! k) sz @ drop (k + 1) (block_table sys)"
    and bk: "blocks sys1 ! k = \<lparr>start = start (blocks sys ! k), size_b = sz, is_free = False\<rparr>"
    and n1: "num_blocks sys1 =
           (if size_b (blocks sys ! k) = sz then num_blocks sys else num_blocks sys + 1)"
    and l1: "length (blocks sys1) = length (blocks sys)"
    and fr: "sys1\<lparr>blocks := blocks sys, num_blocks := num_blocks sys\<rparr> = sys"
    by blast
  have f1: "processes sys1 = processes sys" "num_processes sys1 = num_processes sys"
    "wait_queue sys1 = wait_queue sys" "wait_queue_count sys1 = wait_queue_count sys"
    "wait_queue_front sys1 = wait_queue_front sys" "wait_queue_rear sys1 = wait_queue_rear sys"
    using arg_cong [OF fr, of processes] arg_cong [OF fr, of num_processes]
      arg_cong [OF fr, of wait_queue] arg_cong [OF fr, of wait_queue_count]
      arg_cong [OF fr, of wait_queue_front] arg_cong [OF fr, of wait_queue_rear]
    by simp_all
  let ?sys' = "sys1\<lparr>processes := (processes sys1)[num_processes sys1 := ?p],
                     num_processes := num_processes sys1 + 1\<rparr>"
  have rp: "record_process sys1 pid sz k = Inr (?sys', start (blocks sys ! k))"
    using roomp f1 bk by (simp add: record_process_def)
  show thesis
  proof (rule that [of ?sys'])
    show "first_fit_allocate sys pid sz = Inr (?sys', start (blocks sys ! k))"
      using first_fit_allocate_found [OF k, of pid] sp rp by simp
    show "block_table ?sys' =
           take k (block_table sys) @ placed (blocks sys ! k) sz @ drop (k + 1) (block_table sys)"
      using bt by (simp add: block_table_def)
    show "process_table ?sys' = process_table sys @ [?p]"
      using roomp lenp f1 by (simp add: process_table_def take_Suc_conv_app_nth)
  qed (use f1 l1 n1 lenb lenp in simp_all)
qed

lemma first_fit_allocate_room:
  assumes k: "k < num_blocks sys" "fits sys sz k" "\<forall>j<k. \<not> fits sys sz j"
    and lenb: "length (blocks sys) = MAX_BLOCKS"
    and nb: "num_blocks sys \<le> MAX_BLOCKS"
    and res: "first_fit_allocate sys pid sz = Inr r"
  shows "size_b (blocks sys ! k) \<noteq> sz \<longrightarrow> num_blocks sys < MAX_BLOCKS"
    and "num_processes sys < MAX_PROCESSES"
proof -
  note ff = first_fit_allocate_found [OF k, of pid]
  show roomb: "size_b (blocks sys ! k) \<noteq> sz \<longrightarrow> num_blocks sys < MAX_BLOCKS"
  proof (rule ccontr)
    assume "\<not> ?thesis"
    then have "split_at sys sz k = Inl (BlocksOutOfBounds, sys)"
      by (simp add: split_at_def)
    with ff res show False by simp
  qed
  from split_at_effect [OF k(1) lenb nb roomb]
  obtain sys1 where sp: "split_at sys sz k = Inr sys1"
    and fr: "sys1\<lparr>blocks := blocks sys, num_blocks := num_blocks sys\<rparr> = sys"
    by blast
  have np: "num_processes sys1 = num_processes sys"
    using arg_cong [OF fr, of num_processes] by simp
  show "num_processes sys < MAX_PROCESSES"
  proof (rule ccontr)
    assume "\<not> ?thesis"
    with np have "record_process sys1 pid sz k = Inl (ProcessesOutOfBounds, sys1)"
      by (simp add: record_process_def)
    with ff sp res show False by simp
  qed
qed

subsection \<open>Contiguous block sequences\<close>

lemma contiguous_append:
  "contiguous a (xs @ ys) =
     (contiguous a xs \<and> contiguous (a + sum_list (map size_b xs)) ys)"
  by (induction xs arbitrary: a) (auto simp: add.assoc)

lemma contiguous_size_pos: "contiguous a bs \<Longrightarrow> b \<in> set bs \<Longrightarrow> 0 < size_b b"
  by (induction bs arbitrary: a) auto

lemma contiguous_sum_nonneg: "contiguous a bs \<Longrightarrow> 0 \<le> sum_list (map size_b bs)"
  by (induction bs arbitrary: a) (auto intro: add_nonneg_nonneg)

lemma contiguous_start_nth:
  "contiguous a bs \<Longrightarrow> i < length bs \<Longrightarrow>
   start (bs ! i) = a + sum_list (map size_b (take i bs))"
proof (induction bs arbitrary: a i)
  case Nil
  then show ?case by simp
next
  case (Cons b bs)
  then show ?case by (cases i) (auto simp: add.assoc)
qed

lemma contiguous_adjacent:
  assumes "contiguous a bs" and "i + 1 < length bs"
  shows "start (bs ! i) + size_b (bs ! i) = start (bs ! (i + 1))"
proof -
  from assms have "i < length bs" by simp
  then have "take (i + 1) bs = take i bs @ [bs ! i]"
    by (simp add: take_Suc_conv_app_nth)
  with contiguous_start_nth [OF assms(1), of i] contiguous_start_nth [OF assms(1), of "i + 1"] assms(2)
  show ?thesis by simp
qed

lemma contiguous_no_overlap:
  assumes "contiguous a bs" and "i < j" and "j < length bs"
  shows "start (bs ! i) + size_b (bs ! i) \<le> start (bs ! j)"
proof -
  from assms obtain d where j: "j = i + 1 + d"
    using less_iff_Suc_add [of i j] by auto
  have "take j bs = take (i + 1) bs @ take d (drop (i + 1) bs)"
    unfolding j using take_add [of "Suc i" d bs] by simp
  moreover have "take (i + 1) bs = take i bs @ [bs ! i]"
    using assms by (simp add: take_Suc_conv_app_nth)
  moreover have "contiguous (a + sum_list (map size_b (take (i + 1) bs))) (take d (drop (i + 1) bs))"
  proof -
    have "bs = take (i + 1) bs @ take d (drop (i + 1) bs) @ drop d (drop (i + 1) bs)"
      by (simp only: append_take_drop_id)
    with assms(1) have "contiguous a (take (i + 1) bs @ take d (drop (i + 1) bs) @ drop d (drop (i + 1) bs))"
      by simp
    then show ?thesis unfolding contiguous_append by blast
  qed
  then have "0 \<le> sum_list (map size_b (take d (drop (i + 1) bs)))"
    by (rule contiguous_sum_nonneg)
  ultimately show ?thesis
    using contiguous_start_nth [OF assms(1), of i] contiguous_start_nth [OF assms(1), of j] assms
    by simp
qed

lemma contiguous_strict:
  assumes "contiguous a bs" and "i < j" and "j < length bs"
  shows "start (bs ! i) < start (bs ! j)"
proof -
  from assms have "bs ! i \<in> set bs" by simp
  with assms(1) have "0 < size_b (bs ! i)" by (rule contiguous_size_pos)
  with contiguous_no_overlap [OF assms] show ?thesis by simp
qed

lemma contiguous_start_inj:
  assumes "contiguous a bs" and "b \<in> set bs" and "c \<in> set bs" and "start b = start c"
  shows "b = c"
proof -
  from assms obtain i j where i: "i < length bs" "bs ! i = b" and j: "j < length bs" "bs ! j = c"
    by (auto simp: in_set_conv_nth)
  have "i = j"
  proof (rule ccontr)
    assume "i \<noteq> j"
    then consider "i < j" | "j < i" by linarith
    then show False
      using contiguous_strict [OF assms(1), of i j] contiguous_strict [OF assms(1), of j i]
        i j assms(4) by cases auto
  qed
  with i j show ?thesis by simp
qed

lemma contiguous_take: "contiguous a bs \<Longrightarrow> contiguous a (take i bs)"
proof -
  assume "contiguous a bs"
  then have "contiguous a (take i bs @ drop i bs)" by simp
  then show ?thesis unfolding contiguous_append by blast
qed

lemma contiguous_start_nonneg:
  assumes "contiguous a bs" and "0 \<le> a" and "i < length bs"
  shows "0 \<le> start (bs ! i)"
proof -
  from assms(1) have "contiguous a (take i bs)" by (rule contiguous_take)
  then have "0 \<le> sum_list (map size_b (take i bs))" by (rule contiguous_sum_nonneg)
  with contiguous_start_nth [OF assms(1,3)] assms(2) show ?thesis by simp
qed

lemma contiguous_within:
  assumes "contiguous a bs" and "i < length bs"
  shows "a \<le> start (bs ! i)"
    and "start (bs ! i) + size_b (bs ! i) \<le> a + sum_list (map size_b bs)"
proof -
  have split: "bs = take i bs @ [bs ! i] @ drop (i + 1) bs"
    using assms(2) by (simp add: id_take_nth_drop)
  with assms(1) have "contiguous a (take i bs @ [bs ! i] @ drop (i + 1) bs)" by simp
  then have "contiguous (a + sum_list (map size_b (take i bs)) + size_b (bs ! i))
      (drop (i + 1) bs)"
    by (simp add: contiguous_append)
  then have rest: "0 \<le> sum_list (map size_b (drop (i + 1) bs))"
    by (rule contiguous_sum_nonneg)
  from assms(1) have "contiguous a (take i bs)" by (rule contiguous_take)
  then have before: "0 \<le> sum_list (map size_b (take i bs))" by (rule contiguous_sum_nonneg)
  have total: "sum_list (map size_b bs) =
      sum_list (map size_b (take i bs)) + size_b (bs ! i) +
      sum_list (map size_b (drop (i + 1) bs))"
    using arg_cong [OF split, of "\<lambda>l. sum_list (map size_b l)"] by simp
  from before contiguous_start_nth [OF assms] show "a \<le> start (bs ! i)" by simp
  from rest total contiguous_start_nth [OF assms]
  show "start (bs ! i) + size_b (bs ! i) \<le> a + sum_list (map size_b bs)" by simp
qed

lemma block_table_nth: "i < num_blocks sys \<Longrightarrow> block_table sys ! i = blocks sys ! i"
  by (simp add: block_table_def)

lemma length_block_table:
  "num_blocks sys \<le> length (blocks sys) \<Longrightarrow> length (block_table sys) = num_blocks sys"
  by (simp add: block_table_def)


lemma example_memory_initial:
  "initialize_memory [100, 500, 200, 300, 600] = Inr example_memory"
  by code_simp

lemma full_memory_initial:
  "initialize_memory (replicate 50 2) = Inr full_memory"
  by code_simp


subsection \<open>The wait queue and the drain\<close>

lemma add_to_wait_queue_frame:
  "blocks (fst (add_to_wait_queue sys pid sz)) = blocks sys"
  "num_blocks (fst (add_to_wait_queue sys pid sz)) = num_blocks sys"
  "processes (fst (add_to_wait_queue sys pid sz)) = processes sys"
  "num_processes (fst (add_to_wait_queue sys pid sz)) = num_processes sys"
  "wait_queue_front (fst (add_to_wait_queue sys pid sz)) = wait_queue_front sys"
  by (simp_all add: add_to_wait_queue_def Let_def)

lemma add_to_wait_queue_tables:
  "block_table (fst (add_to_wait_queue sys pid sz)) = block_table sys"
  "process_table (fst (add_to_wait_queue sys pid sz)) = process_table sys"
  by (simp_all add: block_table_def process_table_def add_to_wait_queue_frame)

lemma drain_wait_queue_stop:
  "try_allocate_waiting_process sys = Inr (sys1, 0) \<Longrightarrow> drain_wait_queue sys = Inr sys1"
  by (simp add: drain_wait_queue.simps [of sys])

lemma drain_wait_queue_fault:
  "try_allocate_waiting_process sys = Inl f \<Longrightarrow> drain_wait_queue sys = Inl f"
  by (simp add: drain_wait_queue.simps [of sys])

lemma drain_wait_queue_step:
  "try_allocate_waiting_process sys = Inr (sys1, allocated) \<Longrightarrow> allocated \<noteq> 0 \<Longrightarrow>
   drain_wait_queue sys = drain_wait_queue sys1"
  by (simp add: drain_wait_queue.simps [of sys])

text \<open>One attempt of the drain: nothing is allocated, or the head is.\<close>

lemma try_allocate_waiting_process_cases:
  assumes lenb: "length (blocks sys) = MAX_BLOCKS"
    and nb: "num_blocks sys \<le> MAX_BLOCKS"
    and lenp: "length (processes sys) = MAX_PROCESSES"
    and starts: "\<forall>i<num_blocks sys. start (blocks sys ! i) \<noteq> - 1"
    and res: "try_allocate_waiting_process sys = Inr (sys', allocated)"
  obtains (empty) "wait_queue_count sys = 0" "sys' = sys" "allocated = 0"
  | (short) "wait_queue_count sys \<noteq> 0"
      "get_total_free_memory sys < memory_size_w (wait_queue sys ! wait_queue_front sys)"
      "sys' = sys" "allocated = 0"
  | (fragmented) "wait_queue_count sys \<noteq> 0"
      "memory_size_w (wait_queue sys ! wait_queue_front sys) \<le> get_total_free_memory sys"
      "\<forall>j<num_blocks sys. \<not> fits sys (memory_size_w (wait_queue sys ! wait_queue_front sys)) j"
      "sys' = fst (add_to_wait_queue sys (process_id (wait_queue sys ! wait_queue_front sys))
                     (memory_size_w (wait_queue sys ! wait_queue_front sys)))"
      "allocated = 0"
  | (served) k sys1 where "wait_queue_count sys \<noteq> 0"
      "memory_size_w (wait_queue sys ! wait_queue_front sys) \<le> get_total_free_memory sys"
      "k < num_blocks sys"
      "fits sys (memory_size_w (wait_queue sys ! wait_queue_front sys)) k"
      "\<forall>j<k. \<not> fits sys (memory_size_w (wait_queue sys ! wait_queue_front sys)) j"
      "first_fit_allocate sys (process_id (wait_queue sys ! wait_queue_front sys))
         (memory_size_w (wait_queue sys ! wait_queue_front sys)) =
       Inr (sys1, start (blocks sys ! k))"
      "sys' = sys1\<lparr>wait_queue_front := (wait_queue_front sys1 + 1) mod MAX_WAIT_QUEUE,
                     wait_queue_count := wait_queue_count sys1 - 1\<rparr>"
      "allocated = 1"
proof -
  let ?w = "wait_queue sys ! wait_queue_front sys"
  show thesis
  proof (cases "wait_queue_count sys = 0")
    case True
    with res have "sys' = sys" "allocated = 0"
      by (simp_all add: try_allocate_waiting_process_def)
    with True show thesis by (rule empty)
  next
    case ne: False
    show thesis
    proof (cases "get_total_free_memory sys < memory_size_w ?w")
      case True
      with ne res have "sys' = sys" "allocated = 0"
        by (simp_all add: try_allocate_waiting_process_def Let_def)
      with ne True show thesis by (rule short)
    next
      case enough: False
      from ne enough res have unf:
        "(case first_fit_allocate sys (process_id ?w) (memory_size_w ?w) of
            Inl f \<Rightarrow> Inl f
          | Inr (sys1, address) \<Rightarrow>
              if address \<noteq> - 1
              then Inr (sys1\<lparr>wait_queue_front := (wait_queue_front sys1 + 1) mod MAX_WAIT_QUEUE,
                              wait_queue_count := wait_queue_count sys1 - 1\<rparr>, 1)
              else Inr (sys1, 0)) = Inr (sys', allocated)"
        by (simp add: try_allocate_waiting_process_def Let_def)
      show thesis
      proof (cases rule: first_fit_cases [of sys "memory_size_w ?w"])
        case none
        from first_fit_allocate_not_found [OF none, of "process_id ?w"] unf
        have "sys' = fst (add_to_wait_queue sys (process_id ?w) (memory_size_w ?w))"
          and "allocated = 0"
          by simp_all
        moreover from enough have "memory_size_w ?w \<le> get_total_free_memory sys" by simp
        ultimately show thesis using ne none by (intro fragmented)
      next
        case (found k)
        from unf obtain r where r: "first_fit_allocate sys (process_id ?w) (memory_size_w ?w) = Inr r"
          by (cases "first_fit_allocate sys (process_id ?w) (memory_size_w ?w)") auto
        note room = first_fit_allocate_room [OF found lenb nb r]
        from first_fit_allocate_effect [OF found lenb nb lenp room, of "process_id ?w"]
        obtain sys1 where ff: "first_fit_allocate sys (process_id ?w) (memory_size_w ?w) =
            Inr (sys1, start (blocks sys ! k))"
          by blast
        from starts found(1) have "start (blocks sys ! k) \<noteq> - 1" by simp
        with unf ff have "sys' = sys1\<lparr>wait_queue_front := (wait_queue_front sys1 + 1) mod MAX_WAIT_QUEUE,
                              wait_queue_count := wait_queue_count sys1 - 1\<rparr>"
          and "allocated = 1"
          by simp_all
        moreover from enough have "memory_size_w ?w \<le> get_total_free_memory sys" by simp
        ultimately show thesis using ne found ff by (intro served)
      qed
    qed
  qed
qed

lemma blocked_memory_reached:
  "simulate [300, 50] [Allocate 300, Allocate 50, Allocate 200, Allocate 50, Free 2] =
     Inr (blocked_memory, 5)"
  by code_simp

subsection \<open>Initialisation\<close>

lemma initialize_loop_length [simp]:
  "length (initialize_loop bs szs i a) = length bs"
  by (induction bs szs i a rule: initialize_loop.induct) simp_all

lemma initialize_loop_contiguous:
  assumes "contiguous a0 (take i bs)"
    and "a = a0 + sum_list (map size_b (take i bs))"
    and "i + length szs \<le> length bs"
    and "\<forall>sz \<in> set szs. 0 < sz"
    and "INT_MIN \<le> a"
    and "a + sum_list szs \<le> INT_MAX"
  shows "contiguous a0 (take (i + length szs) (initialize_loop bs szs i a)) \<and>
         sum_list (map size_b (take (i + length szs) (initialize_loop bs szs i a))) =
           sum_list (map size_b (take i bs)) + sum_list szs"
  using assms
proof (induction szs arbitrary: bs i a)
  case Nil
  then show ?case by simp
next
  case (Cons sz szs)
  let ?new = "\<lparr>start = a, size_b = sz, is_free = True\<rparr>"
  let ?bs = "bs[i := ?new]"
  from Cons.prems have i: "i < length bs" by simp
  then have tk: "take (Suc i) ?bs = take i bs @ [?new]"
    by (simp add: take_Suc_conv_app_nth)
  have "0 \<le> sum_list szs"
    using Cons.prems(4) by (intro sum_list_nonneg) auto
  with Cons.prems(4,5,6) have low: "INT_MIN \<le> a + sz" and high: "a + sz \<le> INT_MAX"
    and rest: "a + sz + sum_list szs \<le> INT_MAX"
    by auto
  from low high have w: "int_wrap (a + sz) = a + sz" by (rule int_wrap_id)
  have c: "contiguous a0 (take (Suc i) ?bs)"
    unfolding tk using Cons.prems(1,2,4) by (simp add: contiguous_append)
  have s: "a + sz = a0 + sum_list (map size_b (take (Suc i) ?bs))"
    unfolding tk using Cons.prems(2) by simp
  have "contiguous a0 (take (Suc i + length szs) (initialize_loop ?bs szs (Suc i) (a + sz))) \<and>
      sum_list (map size_b (take (Suc i + length szs) (initialize_loop ?bs szs (Suc i) (a + sz)))) =
        sum_list (map size_b (take (Suc i) ?bs)) + sum_list szs"
    using Cons.prems(3,4) low rest by (intro Cons.IH [OF c s]) simp_all
  then have "contiguous a0 (take (Suc i + length szs) (initialize_loop ?bs szs (Suc i) (a + sz))) \<and>
      sum_list (map size_b (take (Suc i + length szs) (initialize_loop ?bs szs (Suc i) (a + sz)))) =
        sum_list (map size_b (take i bs)) + sz + sum_list szs"
    unfolding tk by simp
  then show ?case by (simp add: w)
qed

lemma initialize_memory_invariant:
  assumes "initialize_memory block_sizes = Inr sys" and "\<forall>sz \<in> set block_sizes. 1 \<le> sz"
    and "sum_list block_sizes \<le> INT_MAX"
  shows "invariant sys (sum_list block_sizes)"
proof -
  from assms(1) have len: "length block_sizes \<le> MAX_BLOCKS"
    and sys: "sys = zero_memory
        \<lparr>blocks := initialize_loop (blocks zero_memory) block_sizes 0 0,
         num_blocks := length block_sizes,
         wait_queue_front := 0,
         wait_queue_rear := - 1,
         wait_queue_count := 0\<rparr>"
    by (auto simp: initialize_memory_def split: if_splits)
  have pos: "\<forall>sz \<in> set block_sizes. 0 < sz" using assms(2) by auto
  have "contiguous 0 (take (0 + length block_sizes)
          (initialize_loop (blocks zero_memory) block_sizes 0 0)) \<and>
        sum_list (map size_b (take (0 + length block_sizes)
          (initialize_loop (blocks zero_memory) block_sizes 0 0))) =
          sum_list (map size_b (take 0 (blocks zero_memory))) + sum_list block_sizes"
    using len pos assms(3)
    by (intro initialize_loop_contiguous) (simp_all add: zero_memory_def INT_MIN_def)
  then have "blocks_ok sys (sum_list block_sizes)"
    using len assms(3) by (simp add: blocks_ok_def sys block_table_def zero_memory_def)
  moreover have "processes_ok sys"
    by (simp add: processes_ok_def sys active_processes_def process_table_def zero_memory_def)
  moreover have "queue_ok sys"
    by (simp add: queue_ok_def sys waiting_def zero_memory_def MAX_WAIT_QUEUE_def)
  ultimately show ?thesis by (simp add: invariant_def)
qed

subsection \<open>Allocation keeps the invariant\<close>

lemma placed_in_range:
  assumes "0 \<le> start b" and "start b + size_b b \<le> INT_MAX" and "0 \<le> sz" and "sz \<le> size_b b"
  shows "placed b sz =
     (if size_b b = sz then [\<lparr>start = start b, size_b = sz, is_free = False\<rparr>]
      else [\<lparr>start = start b, size_b = sz, is_free = False\<rparr>,
            \<lparr>start = start b + sz, size_b = size_b b - sz, is_free = True\<rparr>])"
proof -
  from assms have "int_wrap (start b + sz) = start b + sz"
    by (intro int_wrap_id) (auto simp: INT_MIN_def)
  moreover from assms have "int_wrap (size_b b - sz) = size_b b - sz"
    by (intro int_wrap_id) (auto simp: INT_MIN_def)
  ultimately show ?thesis by (simp add: placed_def)
qed

lemma contiguous_placed:
  assumes "contiguous a (xs @ [b] @ ys)" and "0 < sz" and "sz \<le> size_b b"
    and "0 \<le> start b" and "start b + size_b b \<le> INT_MAX"
  shows "contiguous a (xs @ placed b sz @ ys)"
    and "sum_list (map size_b (xs @ placed b sz @ ys)) = sum_list (map size_b (xs @ [b] @ ys))"
  using assms by (auto simp: contiguous_append placed_in_range)

lemma in_set_take_drop:
  assumes "x \<in> set bs" and "k < length bs" and "x \<noteq> bs ! k"
  shows "x \<in> set (take k bs) \<union> set (drop (k + 1) bs)"
proof -
  have "bs = take k bs @ [bs ! k] @ drop (k + 1) bs"
    using assms(2) by (simp add: id_take_nth_drop)
  then have "set bs = set (take k bs) \<union> {bs ! k} \<union> set (drop (k + 1) bs)"
    by (metis set_append list.simps(15) empty_set Un_assoc Un_insert_left sup_bot_left Un_insert_right sup_bot_right)
  with assms(1,3) show ?thesis by auto
qed

lemma waiting_cong:
  "wait_queue s = wait_queue t \<Longrightarrow> wait_queue_count s = wait_queue_count t \<Longrightarrow>
   wait_queue_front s = wait_queue_front t \<Longrightarrow> waiting s = waiting t"
  by (simp add: waiting_def)

lemma queue_ok_cong:
  "wait_queue s = wait_queue t \<Longrightarrow> wait_queue_count s = wait_queue_count t \<Longrightarrow>
   wait_queue_front s = wait_queue_front t \<Longrightarrow> wait_queue_rear s = wait_queue_rear t \<Longrightarrow>
   queue_ok s = queue_ok t"
  by (simp add: queue_ok_def waiting_def)

lemma first_fit_allocate_returned:
  assumes k: "k < num_blocks sys" "fits sys sz k" "\<forall>j<k. \<not> fits sys sz j"
    and lenb: "length (blocks sys) = MAX_BLOCKS"
    and nb: "num_blocks sys \<le> MAX_BLOCKS"
    and lenp: "length (processes sys) = MAX_PROCESSES"
    and res: "first_fit_allocate sys pid sz = Inr (sys', address)"
  shows "address = start (blocks sys ! k)"
    and "block_table sys' =
           take k (block_table sys) @ placed (blocks sys ! k) sz @ drop (k + 1) (block_table sys)"
    and "process_table sys' = process_table sys @
           [\<lparr>id_p = pid, memory_address = start (blocks sys ! k), memory_size = sz,
             is_active = True\<rparr>]"
    and "length (blocks sys') = MAX_BLOCKS"
    and "length (processes sys') = MAX_PROCESSES"
    and "num_blocks sys' =
           (if size_b (blocks sys ! k) = sz then num_blocks sys else num_blocks sys + 1)"
    and "num_processes sys' = num_processes sys + 1"
    and "wait_queue sys' = wait_queue sys"
    and "wait_queue_count sys' = wait_queue_count sys"
    and "wait_queue_front sys' = wait_queue_front sys"
    and "wait_queue_rear sys' = wait_queue_rear sys"
proof -
  note room = first_fit_allocate_room [OF k lenb nb res]
  from first_fit_allocate_effect [OF k lenb nb lenp room, of pid]
  obtain s where s: "first_fit_allocate sys pid sz = Inr (s, start (blocks sys ! k))"
    "block_table s =
           take k (block_table sys) @ placed (blocks sys ! k) sz @ drop (k + 1) (block_table sys)"
    "process_table s = process_table sys @
           [\<lparr>id_p = pid, memory_address = start (blocks sys ! k), memory_size = sz,
             is_active = True\<rparr>]"
    "length (blocks s) = MAX_BLOCKS"
    "length (processes s) = MAX_PROCESSES"
    "num_blocks s =
           (if size_b (blocks sys ! k) = sz then num_blocks sys else num_blocks sys + 1)"
    "num_processes s = num_processes sys + 1"
    "wait_queue s = wait_queue sys"
    "wait_queue_count s = wait_queue_count sys"
    "wait_queue_front s = wait_queue_front sys"
    "wait_queue_rear s = wait_queue_rear sys"
    by blast
  from s(1) res have eq: "sys' = s" "address = start (blocks sys ! k)" by simp_all
  show "address = start (blocks sys ! k)" by (rule eq(2))
  show "block_table sys' =
           take k (block_table sys) @ placed (blocks sys ! k) sz @ drop (k + 1) (block_table sys)"
    unfolding eq(1) by (rule s(2))
  show "process_table sys' = process_table sys @
           [\<lparr>id_p = pid, memory_address = start (blocks sys ! k), memory_size = sz,
             is_active = True\<rparr>]"
    unfolding eq(1) by (rule s(3))
  show "length (blocks sys') = MAX_BLOCKS" unfolding eq(1) by (rule s(4))
  show "length (processes sys') = MAX_PROCESSES" unfolding eq(1) by (rule s(5))
  show "num_blocks sys' =
           (if size_b (blocks sys ! k) = sz then num_blocks sys else num_blocks sys + 1)"
    unfolding eq(1) by (rule s(6))
  show "num_processes sys' = num_processes sys + 1" unfolding eq(1) by (rule s(7))
  show "wait_queue sys' = wait_queue sys" unfolding eq(1) by (rule s(8))
  show "wait_queue_count sys' = wait_queue_count sys" unfolding eq(1) by (rule s(9))
  show "wait_queue_front sys' = wait_queue_front sys" unfolding eq(1) by (rule s(10))
  show "wait_queue_rear sys' = wait_queue_rear sys" unfolding eq(1) by (rule s(11))
qed

lemma first_fit_allocate_found_invariant:
  assumes inv: "invariant sys space" and pos: "0 < sz"
    and k: "k < num_blocks sys" "fits sys sz k" "\<forall>j<k. \<not> fits sys sz j"
    and res: "first_fit_allocate sys pid sz = Inr (sys', address)"
  shows "invariant sys' space"
    and "address = start (blocks sys ! k)"
    and "wait_queue sys' = wait_queue sys"
    and "wait_queue_count sys' = wait_queue_count sys"
    and "wait_queue_front sys' = wait_queue_front sys"
    and "wait_queue_rear sys' = wait_queue_rear sys"
proof -
  let ?b = "blocks sys ! k"
  let ?bt = "block_table sys"
  let ?p = "\<lparr>id_p = pid, memory_address = start ?b, memory_size = sz, is_active = True\<rparr>"
  from inv have lenb: "length (blocks sys) = MAX_BLOCKS" and nb: "num_blocks sys \<le> MAX_BLOCKS"
    and cont: "contiguous 0 ?bt" and total: "sum_list (map size_b ?bt) = space"
    and space: "space \<le> INT_MAX"
    and lenp: "length (processes sys) = MAX_PROCESSES"
    and owned: "\<forall>p \<in> set (active_processes sys). \<exists>b \<in> set ?bt.
         start b = memory_address p \<and> size_b b = memory_size p \<and> \<not> is_free b"
    and dist: "distinct (map memory_address (active_processes sys))"
    and q: "queue_ok sys"
    by (simp_all add: invariant_def blocks_ok_def processes_ok_def)
  note room = first_fit_allocate_room [OF k lenb nb res]
  note ret = first_fit_allocate_returned [OF k lenb nb lenp res]
  note addr = ret(1) and bt' = ret(2) and pt' = ret(3) and lenb' = ret(4) and lenp' = ret(5)
    and nb' = ret(6) and np' = ret(7) and wq = ret(8-11)
  show "address = start ?b" by (rule addr)
  show "wait_queue sys' = wait_queue sys" "wait_queue_count sys' = wait_queue_count sys"
      "wait_queue_front sys' = wait_queue_front sys" "wait_queue_rear sys' = wait_queue_rear sys"
    by (rule wq)+
  have len: "length ?bt = num_blocks sys" using lenb nb by (simp add: block_table_def)
  have bk: "?bt ! k = ?b" using k(1) by (simp add: block_table_nth)
  have split: "?bt = take k ?bt @ [?b] @ drop (k + 1) ?bt"
    using k(1) len bk id_take_nth_drop [of k ?bt] by simp
  have fit: "is_free ?b" "sz \<le> size_b ?b" using k(2) by (simp_all add: fits_def)
  from cont split have c1: "contiguous 0 (take k ?bt @ [?b] @ drop (k + 1) ?bt)" by simp
  have range: "0 \<le> start ?b" "start ?b + size_b ?b \<le> INT_MAX"
    using contiguous_within [OF cont, of k] k(1) len bk total space by simp_all
  have "contiguous 0 (block_table sys')"
    unfolding bt' using c1 pos fit(2) range by (rule contiguous_placed)
  moreover have "sum_list (map size_b (block_table sys')) = space"
  proof -
    have "sum_list (map size_b (block_table sys')) =
        sum_list (map size_b (take k ?bt @ [?b] @ drop (k + 1) ?bt))"
      unfolding bt' by (rule contiguous_placed(2) [OF c1 pos fit(2) range])
    also have "\<dots> = sum_list (map size_b ?bt)"
      using arg_cong [OF split, of "\<lambda>l. sum_list (map size_b l)"] by simp
    finally show ?thesis using total by simp
  qed
  moreover have "num_blocks sys' \<le> MAX_BLOCKS"
    using nb' nb room(1) by auto
  ultimately have B: "blocks_ok sys' space"
    using lenb' space by (simp add: blocks_ok_def)
  have act': "active_processes sys' = active_processes sys @ [?p]"
    by (simp add: active_processes_def pt')
  have keep: "b \<in> set (block_table sys')" if "b \<in> set ?bt" "\<not> is_free b" for b
  proof -
    from that fit(1) have "b \<noteq> ?bt ! k" using bk by auto
    with that(1) k(1) len have "b \<in> set (take k ?bt) \<union> set (drop (k + 1) ?bt)"
      by (intro in_set_take_drop) simp_all
    then show ?thesis unfolding bt' by auto
  qed
  have new_block: "\<lparr>start = start ?b, size_b = sz, is_free = False\<rparr> \<in> set (block_table sys')"
    unfolding bt' by (simp add: placed_def)
  have owned': "\<forall>p \<in> set (active_processes sys'). \<exists>b \<in> set (block_table sys').
         start b = memory_address p \<and> size_b b = memory_size p \<and> \<not> is_free b"
  proof
    fix p assume "p \<in> set (active_processes sys')"
    then consider "p \<in> set (active_processes sys)" | "p = ?p" unfolding act' by auto
    then show "\<exists>b \<in> set (block_table sys').
         start b = memory_address p \<and> size_b b = memory_size p \<and> \<not> is_free b"
    proof cases
      case 1
      with owned obtain b where "b \<in> set ?bt" "start b = memory_address p"
        "size_b b = memory_size p" "\<not> is_free b" by blast
      with keep show ?thesis by blast
    next
      case 2
      with new_block show ?thesis by (intro bexI [of _ "\<lparr>start = start ?b, size_b = sz, is_free = False\<rparr>"]) simp_all
    qed
  qed
  have fresh: "start ?b \<notin> set (map memory_address (active_processes sys))"
  proof
    assume "start ?b \<in> set (map memory_address (active_processes sys))"
    then obtain p where p: "p \<in> set (active_processes sys)" "memory_address p = start ?b" by auto
    with owned obtain b where b: "b \<in> set ?bt" "start b = start ?b" "\<not> is_free b" by force
    have "?b \<in> set ?bt" using bk k(1) len by (metis nth_mem)
    from contiguous_start_inj [OF cont b(1) this b(2)] b(3) fit(1) show False by simp
  qed
  have "distinct (map memory_address (active_processes sys'))"
    unfolding act' using dist fresh by simp
  then have P: "processes_ok sys'"
    using lenp' np' room(2) owned' by (simp add: processes_ok_def)
  have Q: "queue_ok sys'" using q queue_ok_cong [OF wq] by simp
  from B P Q show "invariant sys' space" by (simp add: invariant_def)
qed

subsection \<open>The circular queue\<close>

lemma slot_distinct:
  fixes f i c n :: nat
  assumes "i < c" and "c < n"
  shows "(f + c) mod n \<noteq> (f + i) mod n"
proof
  assume "(f + c) mod n = (f + i) mod n"
  moreover from assms have "f + i \<le> f + c" by simp
  ultimately have "n dvd (f + c) - (f + i)" by (simp add: mod_eq_dvd_iff_nat)
  then have "n dvd c - i" by simp
  moreover from assms have "0 < c - i" "c - i < n" by simp_all
  ultimately show False using nat_dvd_not_less by blast
qed

lemma slot_next:
  fixes m n :: nat
  shows "(int (m mod n) + 1) mod int n = int (Suc m mod n)"
proof -
  have "(int (m mod n) + 1) mod int n = (int m mod int n + 1) mod int n"
    by (simp add: zmod_int)
  also have "\<dots> = (int m + 1) mod int n"
    by (rule mod_add_left_eq)
  also have "\<dots> = int (Suc m mod n)"
    by (simp add: zmod_int add.commute)
  finally show ?thesis .
qed

lemma slot_shift:
  fixes f i n :: nat
  shows "(Suc f mod n + i) mod n = Suc (f + i) mod n"
  by (simp add: mod_add_left_eq)

lemma slot_back:
  fixes f c n :: nat
  assumes "c \<noteq> 0"
  shows "(f + c) mod n = (Suc f mod n + (c - 1)) mod n"
proof -
  have "(Suc f mod n + (c - 1)) mod n = (Suc f + (c - 1)) mod n"
    by (rule mod_add_left_eq)
  with assms show ?thesis by simp
qed

lemma enqueue_queue_ok:
  assumes q: "queue_ok sys" and room: "wait_queue_count sys < MAX_WAIT_QUEUE" and pos: "0 < sz"
  shows "queue_ok (fst (add_to_wait_queue sys pid sz))"
    and "waiting (fst (add_to_wait_queue sys pid sz)) =
           waiting sys @ [\<lparr>process_id = pid, memory_size_w = sz\<rparr>]"
proof -
  let ?f = "wait_queue_front sys"
  let ?c = "wait_queue_count sys"
  let ?m = "(?f + ?c) mod 50"
  let ?new = "\<lparr>process_id = pid, memory_size_w = sz\<rparr>"
  let ?sys' = "sys\<lparr>wait_queue_rear := int ?m,
                   wait_queue := (wait_queue sys)[?m := ?new],
                   wait_queue_count := ?c + 1\<rparr>"
  from q have len: "length (wait_queue sys) = 50" and f: "?f < 50"
    and rear: "(wait_queue_rear sys + 1) mod 50 = int ?m"
    and old: "\<forall>w \<in> set (waiting sys). 0 < memory_size_w w"
    by (simp_all add: queue_ok_def MAX_WAIT_QUEUE_def)
  from room have c: "?c < 50" by (simp add: MAX_WAIT_QUEUE_def)
  have eq: "fst (add_to_wait_queue sys pid sz) = ?sys'"
    using room rear by (simp add: add_to_wait_queue_def Let_def MAX_WAIT_QUEUE_def)
  have w: "waiting ?sys' = waiting sys @ [?new]"
  proof -
    have "map (\<lambda>i. (wait_queue sys)[?m := ?new] ! ((?f + i) mod 50)) [0..<?c] =
          map (\<lambda>i. wait_queue sys ! ((?f + i) mod 50)) [0..<?c]"
    proof (rule map_cong [OF refl])
      fix i assume "i \<in> set [0..<?c]"
      then have "i < ?c" by simp
      from slot_distinct [OF this c, of ?f]
      show "(wait_queue sys)[?m := ?new] ! ((?f + i) mod 50) = wait_queue sys ! ((?f + i) mod 50)"
        by (rule nth_list_update_neq)
    qed
    moreover have "(wait_queue sys)[?m := ?new] ! ?m = ?new"
      using len by simp
    ultimately show ?thesis
      by (simp add: waiting_def MAX_WAIT_QUEUE_def)
  qed
  show "waiting (fst (add_to_wait_queue sys pid sz)) = waiting sys @ [?new]"
    unfolding eq by (rule w)
  have nxt: "(int ?m + 1) mod 50 = int (Suc (?f + ?c) mod 50)"
    using slot_next [of "?f + ?c" 50] by simp
  have "queue_ok ?sys'"
    unfolding queue_ok_def
  proof (intro conjI)
    show "length (wait_queue ?sys') = MAX_WAIT_QUEUE"
      using len by (simp add: MAX_WAIT_QUEUE_def)
    show "wait_queue_count ?sys' \<le> MAX_WAIT_QUEUE"
      using c by (simp add: MAX_WAIT_QUEUE_def)
    show "wait_queue_front ?sys' < MAX_WAIT_QUEUE"
      using f by (simp add: MAX_WAIT_QUEUE_def)
    show "(wait_queue_rear ?sys' + 1) mod int MAX_WAIT_QUEUE =
        int ((wait_queue_front ?sys' + wait_queue_count ?sys') mod MAX_WAIT_QUEUE)"
      using nxt by (simp add: MAX_WAIT_QUEUE_def)
    show "\<forall>w \<in> set (waiting ?sys'). 0 < memory_size_w w"
      unfolding w using old pos by simp
  qed
  then show "queue_ok (fst (add_to_wait_queue sys pid sz))"
    unfolding eq .
qed

lemma full_queue_unchanged:
  "MAX_WAIT_QUEUE \<le> wait_queue_count sys \<Longrightarrow> fst (add_to_wait_queue sys pid sz) = sys"
  by (simp add: add_to_wait_queue_def)

lemma dequeue_queue_ok:
  assumes q: "queue_ok sys" and ne: "wait_queue_count sys \<noteq> 0"
  shows "queue_ok (sys\<lparr>wait_queue_front := (wait_queue_front sys + 1) mod MAX_WAIT_QUEUE,
                        wait_queue_count := wait_queue_count sys - 1\<rparr>)"
    and "waiting (sys\<lparr>wait_queue_front := (wait_queue_front sys + 1) mod MAX_WAIT_QUEUE,
                        wait_queue_count := wait_queue_count sys - 1\<rparr>) = tl (waiting sys)"
proof -
  let ?f = "wait_queue_front sys"
  let ?c = "wait_queue_count sys"
  let ?sys' = "sys\<lparr>wait_queue_front := (?f + 1) mod MAX_WAIT_QUEUE, wait_queue_count := ?c - 1\<rparr>"
  from q have len: "length (wait_queue sys) = 50" and f: "?f < 50" and c: "?c \<le> 50"
    and rear: "(wait_queue_rear sys + 1) mod 50 = int ((?f + ?c) mod 50)"
    and old: "\<forall>w \<in> set (waiting sys). 0 < memory_size_w w"
    by (simp_all add: queue_ok_def MAX_WAIT_QUEUE_def)
  have "waiting ?sys' = map (\<lambda>i. wait_queue sys ! ((?f + i) mod 50)) (map Suc [0..<?c - 1])"
    by (simp add: waiting_def MAX_WAIT_QUEUE_def slot_shift comp_def)
  moreover have "map Suc [0..<?c - 1] = tl [0..<?c]"
    using ne by (simp add: map_Suc_upt)
  moreover have "map (\<lambda>i. wait_queue sys ! ((?f + i) mod 50)) (tl [0..<?c]) = tl (waiting sys)"
    unfolding waiting_def MAX_WAIT_QUEUE_def by (simp only: map_tl)
  ultimately show w: "waiting ?sys' = tl (waiting sys)"
    by (simp only:)
  have "set (tl (waiting sys)) \<subseteq> set (waiting sys)"
    by (cases "waiting sys") auto
  with old have pos: "\<forall>w \<in> set (waiting ?sys'). 0 < memory_size_w w"
    unfolding w by auto
  have wrap: "(?f + ?c) mod 50 = (Suc ?f mod 50 + (?c - 1)) mod 50"
    using ne by (rule slot_back)
  show "queue_ok ?sys'"
    unfolding queue_ok_def
  proof (intro conjI)
    show "length (wait_queue ?sys') = MAX_WAIT_QUEUE"
      using len by (simp add: MAX_WAIT_QUEUE_def)
    show "wait_queue_count ?sys' \<le> MAX_WAIT_QUEUE"
      using c by (simp add: MAX_WAIT_QUEUE_def)
    show "wait_queue_front ?sys' < MAX_WAIT_QUEUE"
      by (simp add: MAX_WAIT_QUEUE_def)
    show "(wait_queue_rear ?sys' + 1) mod int MAX_WAIT_QUEUE =
        int ((wait_queue_front ?sys' + wait_queue_count ?sys') mod MAX_WAIT_QUEUE)"
      using rear wrap by (simp add: MAX_WAIT_QUEUE_def)
    show "\<forall>w \<in> set (waiting ?sys'). 0 < memory_size_w w"
      by (rule pos)
  qed
qed

lemma queue_head:
  assumes q: "queue_ok sys" and ne: "wait_queue_count sys \<noteq> 0"
  shows "waiting sys ! 0 = wait_queue sys ! wait_queue_front sys"
    and "0 < memory_size_w (wait_queue sys ! wait_queue_front sys)"
proof -
  from q have f: "wait_queue_front sys < 50"
    and old: "\<forall>w \<in> set (waiting sys). 0 < memory_size_w w"
    by (simp_all add: queue_ok_def MAX_WAIT_QUEUE_def)
  from ne f show h: "waiting sys ! 0 = wait_queue sys ! wait_queue_front sys"
    by (simp add: waiting_def MAX_WAIT_QUEUE_def)
  from ne have "waiting sys ! 0 \<in> set (waiting sys)"
    by (intro nth_mem) (simp add: waiting_def)
  with old h show "0 < memory_size_w (wait_queue sys ! wait_queue_front sys)" by auto
qed

subsection \<open>The invariant along the allocation and the drain\<close>

lemma blocks_ok_cong:
  "blocks s = blocks t \<Longrightarrow> num_blocks s = num_blocks t \<Longrightarrow> blocks_ok s space = blocks_ok t space"
  by (simp add: blocks_ok_def block_table_def)

lemma processes_ok_cong:
  "blocks s = blocks t \<Longrightarrow> num_blocks s = num_blocks t \<Longrightarrow>
   processes s = processes t \<Longrightarrow> num_processes s = num_processes t \<Longrightarrow>
   processes_ok s = processes_ok t"
  by (simp add: processes_ok_def block_table_def active_processes_def process_table_def)

lemma add_to_wait_queue_invariant:
  assumes inv: "invariant sys space" and pos: "0 < sz"
  shows "invariant (fst (add_to_wait_queue sys pid sz)) space"
proof -
  let ?sys' = "fst (add_to_wait_queue sys pid sz)"
  from inv have B: "blocks_ok sys space" and P: "processes_ok sys" and Q: "queue_ok sys"
    by (simp_all add: invariant_def)
  have "blocks_ok ?sys' space"
    using B blocks_ok_cong [of ?sys' sys space] by (simp add: add_to_wait_queue_frame)
  moreover have "processes_ok ?sys'"
    using P processes_ok_cong [of ?sys' sys] by (simp add: add_to_wait_queue_frame)
  moreover have "queue_ok ?sys'"
  proof (cases "wait_queue_count sys < MAX_WAIT_QUEUE")
    case True
    with Q pos show ?thesis by (intro enqueue_queue_ok)
  next
    case False
    then have "?sys' = sys" by (intro full_queue_unchanged) simp
    with Q show ?thesis by simp
  qed
  ultimately show ?thesis by (simp add: invariant_def)
qed

lemma first_fit_allocate_invariant:
  assumes inv: "invariant sys space" and pos: "0 < sz"
    and res: "first_fit_allocate sys pid sz = Inr (sys', address)"
  shows "invariant sys' space"
proof (cases rule: first_fit_cases [of sys sz])
  case (found k)
  from first_fit_allocate_found_invariant(1) [OF inv pos found res] show ?thesis .
next
  case none
  from first_fit_allocate_not_found [OF none, of pid] res
  have "sys' = fst (add_to_wait_queue sys pid sz)" by simp
  with add_to_wait_queue_invariant [OF inv pos, of pid] show ?thesis by simp
qed

lemma invariant_starts:
  assumes "invariant sys space"
  shows "\<forall>i<num_blocks sys. start (blocks sys ! i) \<noteq> - 1"
proof (intro allI impI)
  fix i assume i: "i < num_blocks sys"
  from assms have c: "contiguous 0 (block_table sys)"
    and len: "length (block_table sys) = num_blocks sys"
    by (simp_all add: invariant_def blocks_ok_def block_table_def)
  from contiguous_start_nonneg [OF c, of i] i len
  have "0 \<le> start (blocks sys ! i)" by (simp add: block_table_nth)
  then show "start (blocks sys ! i) \<noteq> - 1" by simp
qed

lemma try_allocate_waiting_process_invariant:
  assumes inv: "invariant sys space"
    and res: "try_allocate_waiting_process sys = Inr (sys', allocated)"
  shows "invariant sys' space"
proof -
  let ?w = "wait_queue sys ! wait_queue_front sys"
  from inv have lenb: "length (blocks sys) = MAX_BLOCKS" and nb: "num_blocks sys \<le> MAX_BLOCKS"
    and lenp: "length (processes sys) = MAX_PROCESSES" and Q: "queue_ok sys"
    by (simp_all add: invariant_def blocks_ok_def processes_ok_def)
  from lenb nb lenp invariant_starts [OF inv] res show ?thesis
  proof (cases rule: try_allocate_waiting_process_cases)
    case empty
    with inv show ?thesis by simp
  next
    case short
    with inv show ?thesis by simp
  next
    case fragmented
    from queue_head(2) [OF Q fragmented(1)] have "0 < memory_size_w ?w" .
    from add_to_wait_queue_invariant [OF inv this, of "process_id ?w"] fragmented(4)
    show ?thesis by simp
  next
    case (served k sys1)
    from queue_head(2) [OF Q served(1)] have pos: "0 < memory_size_w ?w" .
    note fi = first_fit_allocate_found_invariant [OF inv pos served(3-6)]
    from fi(1) have B: "blocks_ok sys1 space" and P: "processes_ok sys1" and Q1: "queue_ok sys1"
      by (simp_all add: invariant_def)
    from fi(4) served(1) have ne: "wait_queue_count sys1 \<noteq> 0" by simp
    have "blocks_ok sys' space"
      using B blocks_ok_cong [of sys' sys1 space] served(7) by simp
    moreover have "processes_ok sys'"
      using P processes_ok_cong [of sys' sys1] served(7) by simp
    moreover have "queue_ok sys'"
      unfolding served(7) using Q1 ne by (rule dequeue_queue_ok(1))
    ultimately show ?thesis by (simp add: invariant_def)
  qed
qed

lemma drain_wait_queue_invariant:
  "invariant sys space \<Longrightarrow> drain_wait_queue sys = Inr sys' \<Longrightarrow> invariant sys' space"
proof (induction sys rule: drain_wait_queue.induct)
  case (1 sys)
  show ?case
  proof (cases "try_allocate_waiting_process sys")
    case (Inl f)
    with "1.prems"(2) show ?thesis by (simp add: drain_wait_queue.simps [of sys])
  next
    case (Inr r)
    obtain sys1 allocated where r: "r = (sys1, allocated)" by (cases r)
    from Inr r have t: "try_allocate_waiting_process sys = Inr (sys1, allocated)" by simp
    from try_allocate_waiting_process_invariant [OF "1.prems"(1) t]
    have inv1: "invariant sys1 space" .
    show ?thesis
    proof (cases "allocated = 0")
      case True
      with t "1.prems"(2) inv1 show ?thesis by (simp add: drain_wait_queue.simps [of sys])
    next
      case False
      with t "1.prems"(2) have "drain_wait_queue sys1 = Inr sys'"
        by (simp add: drain_wait_queue.simps [of sys])
      with "1.IH" [OF Inr r [symmetric] False inv1] show ?thesis .
    qed
  qed
qed

subsection \<open>The invariant along free\_memory\<close>

lemma filter_update_false:
  assumes "i < length xs" and "\<not> P x"
  shows "filter P (xs[i := x]) = filter P (take i xs) @ filter P (drop (i + 1) xs)"
  using assms by (simp add: upd_conv_take_nth_drop)

lemma filter_split_at:
  assumes "i < length xs" and "P (xs ! i)"
  shows "filter P xs = filter P (take i xs) @ [xs ! i] @ filter P (drop (i + 1) xs)"
proof -
  have "xs = take i xs @ [xs ! i] @ drop (i + 1) xs"
    using assms(1) by (simp add: id_take_nth_drop)
  then have "filter P xs = filter P (take i xs @ [xs ! i] @ drop (i + 1) xs)" by simp
  with assms(2) show ?thesis by simp
qed

text \<open>Line 209: the state after the entry at index \<open>i\<close> has been deactivated.\<close>

lemma deactivate_invariant:
  assumes inv: "invariant sys space" and i: "i < num_processes sys"
    and act: "is_active (processes sys ! i)"
  defines "sys1 \<equiv> sys\<lparr>processes := (processes sys)[i := (processes sys ! i)\<lparr>is_active := False\<rparr>]\<rparr>"
  shows "invariant sys1 space"
    and "memory_address (processes sys ! i) \<notin> set (map memory_address (active_processes sys1))"
    and "\<exists>k<num_blocks sys. start (blocks sys ! k) = memory_address (processes sys ! i)"
proof -
  let ?p = "processes sys ! i"
  let ?pt = "process_table sys"
  from inv have B: "blocks_ok sys space" and Q: "queue_ok sys"
    and lenp: "length (processes sys) = MAX_PROCESSES" and np: "num_processes sys \<le> MAX_PROCESSES"
    and owned: "\<forall>p \<in> set (active_processes sys). \<exists>b \<in> set (block_table sys).
         start b = memory_address p \<and> size_b b = memory_size p \<and> \<not> is_free b"
    and dist: "distinct (map memory_address (active_processes sys))"
    by (simp_all add: invariant_def processes_ok_def)
  have il: "i < length ?pt" and pi: "?pt ! i = ?p"
    using i lenp np by (simp_all add: process_table_def)
  have pt1: "process_table sys1 = ?pt[i := ?p\<lparr>is_active := False\<rparr>]"
    by (simp add: sys1_def process_table_def take_update_swap)
  have a0: "active_processes sys =
      filter is_active (take i ?pt) @ [?p] @ filter is_active (drop (i + 1) ?pt)"
    unfolding active_processes_def using filter_split_at [OF il, of is_active] act pi by simp
  have a1: "active_processes sys1 =
      filter is_active (take i ?pt) @ filter is_active (drop (i + 1) ?pt)"
    unfolding active_processes_def pt1 using il by (intro filter_update_false) simp_all
  from dist show fresh:
    "memory_address ?p \<notin> set (map memory_address (active_processes sys1))"
    unfolding a0 a1 by auto
  have sub: "set (active_processes sys1) \<subseteq> set (active_processes sys)"
    unfolding a0 a1 by auto
  have "distinct (map memory_address (active_processes sys1))"
    using dist unfolding a0 a1 by auto
  moreover have "block_table sys1 = block_table sys"
    by (simp add: sys1_def block_table_def)
  ultimately have "processes_ok sys1"
    using lenp np owned sub by (auto simp: processes_ok_def sys1_def)
  moreover have "blocks_ok sys1 space"
    using B blocks_ok_cong [of sys1 sys space] by (simp add: sys1_def)
  moreover have "queue_ok sys1"
    using Q queue_ok_cong [of sys1 sys] by (simp add: sys1_def)
  ultimately show "invariant sys1 space" by (simp add: invariant_def)
  have "?p \<in> set (active_processes sys)" unfolding a0 by simp
  with owned obtain b where b: "b \<in> set (block_table sys)" "start b = memory_address ?p"
    by blast
  from B have "length (block_table sys) = num_blocks sys"
    by (simp add: blocks_ok_def block_table_def)
  with b(1) obtain k where "k < num_blocks sys" "block_table sys ! k = b"
    by (auto simp: in_set_conv_nth)
  with b(2) show "\<exists>k<num_blocks sys. start (blocks sys ! k) = memory_address ?p"
    by (auto simp: block_table_nth)
qed

text \<open>Line 214: the state after the block at index \<open>j\<close> has been marked free.\<close>

lemma release_invariant:
  assumes inv: "invariant sys space" and j: "j < num_blocks sys"
    and fresh: "start (blocks sys ! j) \<notin> set (map memory_address (active_processes sys))"
  shows "invariant (sys\<lparr>blocks := (blocks sys)[j := (blocks sys ! j)\<lparr>is_free := True\<rparr>]\<rparr>) space"
proof -
  let ?b = "blocks sys ! j"
  let ?bt = "block_table sys"
  let ?sys' = "sys\<lparr>blocks := (blocks sys)[j := ?b\<lparr>is_free := True\<rparr>]\<rparr>"
  from inv have lenb: "length (blocks sys) = MAX_BLOCKS" and nb: "num_blocks sys \<le> MAX_BLOCKS"
    and cont: "contiguous 0 ?bt" and total: "sum_list (map size_b ?bt) = space"
    and space: "space \<le> INT_MAX"
    and P: "processes_ok sys" and Q: "queue_ok sys"
    by (simp_all add: invariant_def blocks_ok_def)
  have len: "length ?bt = num_blocks sys" using lenb nb by (simp add: block_table_def)
  have bj: "?bt ! j = ?b" using j by (simp add: block_table_nth)
  have old: "?bt = take j ?bt @ [?b] @ drop (j + 1) ?bt"
    using j len bj id_take_nth_drop [of j ?bt] by simp
  have "block_table ?sys' = ?bt[j := ?b\<lparr>is_free := True\<rparr>]"
    by (simp add: block_table_def take_update_swap)
  also have "\<dots> = take j ?bt @ [?b\<lparr>is_free := True\<rparr>] @ drop (j + 1) ?bt"
    using j len by (simp add: upd_conv_take_nth_drop)
  finally have new:
    "block_table ?sys' = take j ?bt @ [?b\<lparr>is_free := True\<rparr>] @ drop (j + 1) ?bt" .
  from cont old have "contiguous 0 (take j ?bt @ [?b] @ drop (j + 1) ?bt)" by simp
  then have c': "contiguous 0 (block_table ?sys')"
    unfolding new by (simp add: contiguous_append)
  have "sum_list (map size_b (block_table ?sys')) =
      sum_list (map size_b (take j ?bt @ [?b] @ drop (j + 1) ?bt))"
    unfolding new by simp
  also have "\<dots> = space"
    using arg_cong [OF old, of "\<lambda>l. sum_list (map size_b l)"] total by simp
  finally have B': "blocks_ok ?sys' space"
    using c' lenb nb space by (simp add: blocks_ok_def)
  from P have owned: "\<forall>p \<in> set (active_processes sys). \<exists>b \<in> set ?bt.
         start b = memory_address p \<and> size_b b = memory_size p \<and> \<not> is_free b"
    by (simp add: processes_ok_def)
  have act: "active_processes ?sys' = active_processes sys"
    by (simp add: active_processes_def process_table_def)
  have owned': "\<forall>p \<in> set (active_processes ?sys'). \<exists>b \<in> set (block_table ?sys').
         start b = memory_address p \<and> size_b b = memory_size p \<and> \<not> is_free b"
  proof
    fix p assume "p \<in> set (active_processes ?sys')"
    then have p: "p \<in> set (active_processes sys)" unfolding act .
    with owned obtain b where b: "b \<in> set ?bt" "start b = memory_address p"
      "size_b b = memory_size p" "\<not> is_free b" by blast
    from p fresh b(2) have "start b \<noteq> start ?b" by force
    then have "b \<noteq> ?bt ! j" using bj by auto
    with b(1) j len have "b \<in> set (take j ?bt) \<union> set (drop (j + 1) ?bt)"
      by (intro in_set_take_drop) simp_all
    then have "b \<in> set (block_table ?sys')" unfolding new by auto
    with b show "\<exists>b \<in> set (block_table ?sys').
         start b = memory_address p \<and> size_b b = memory_size p \<and> \<not> is_free b" by blast
  qed
  from P owned' have P': "processes_ok ?sys'"
    unfolding processes_ok_def act by simp
  have Q': "queue_ok ?sys'"
    using Q queue_ok_cong [of ?sys' sys] by simp
  from B' P' Q' show ?thesis by (simp add: invariant_def)
qed

lemma free_block_loop_invariant:
  assumes "invariant sys space"
    and "address \<notin> set (map memory_address (active_processes sys))"
    and "free_block_loop sys address j = Some (Inr sys')"
  shows "invariant sys' space"
  using assms
proof (induction sys address j rule: free_block_loop.induct)
  case (1 sys address j)
  note unfold = free_block_loop.simps [of sys address j]
  show ?case
  proof (cases "j < num_blocks sys")
    case False
    with "1.prems"(3) unfold show ?thesis by simp
  next
    case j: True
    show ?thesis
    proof (cases "start (blocks sys ! j) = address")
      case True
      with j "1.prems"(3) unfold have d: "drain_wait_queue
          (sys\<lparr>blocks := (blocks sys)[j := (blocks sys ! j)\<lparr>is_free := True\<rparr>]\<rparr>) = Inr sys'"
        by simp
      from True "1.prems"(2)
      have "start (blocks sys ! j) \<notin> set (map memory_address (active_processes sys))" by simp
      from release_invariant [OF "1.prems"(1) j this] d show ?thesis
        by (rule drain_wait_queue_invariant)
    next
      case False
      with j "1.prems"(3) unfold have "free_block_loop sys address (j + 1) = Some (Inr sys')"
        by simp
      with "1.IH" [OF j False "1.prems"(1,2)] show ?thesis .
    qed
  qed
qed


lemma free_memory_loop_invariant:
  "invariant sys space \<Longrightarrow> free_memory_loop sys pid i = Inr (r, sys') \<Longrightarrow> invariant sys' space"
proof (induction sys pid i rule: free_memory_loop.induct)
  case (1 sys pid i)
  note unfold = free_memory_loop.simps [of sys pid i]
  let ?sys1 = "sys\<lparr>processes := (processes sys)[i := (processes sys ! i)\<lparr>is_active := False\<rparr>]\<rparr>"
  let ?a = "memory_address (processes sys ! i)"
  show ?case
  proof (cases "i < num_processes sys")
    case False
    with "1.prems" unfold show ?thesis by simp
  next
    case i: True
    show ?thesis
    proof (cases "id_p (processes sys ! i) = pid \<and> is_active (processes sys ! i)")
      case False
      with i "1.prems"(2) unfold have "free_memory_loop sys pid (i + 1) = Inr (r, sys')"
        by auto
      with "1.IH"(2) [OF i False "1.prems"(1)] show ?thesis .
    next
      case m: True
      then have act: "is_active (processes sys ! i)" by simp
      note d = deactivate_invariant [OF "1.prems"(1) i act]
      show ?thesis
      proof (cases "free_block_loop ?sys1 ?a 0")
        case None
        with i m "1.prems"(2) unfold have "free_memory_loop ?sys1 pid (i + 1) = Inr (r, sys')"
          by simp
        with "1.IH"(1) [OF i m None d(1)] show ?thesis .
      next
        case (Some res)
        show ?thesis
        proof (cases res)
          case (Inl f)
          with Some i m "1.prems"(2) unfold show ?thesis by simp
        next
          case (Inr sys2)
          with Some i m "1.prems"(2) unfold have "sys' = sys2" by simp
          with Some Inr free_block_loop_invariant [OF d(1,2), of 0 sys2] show ?thesis by simp
        qed
      qed
    qed
  qed
qed


subsection \<open>The invariant at an out-of-bounds write\<close>

text \<open>
  When an operation stops at a write past the end of a table, the state it had
  reached still satisfies the invariant: a split that finds the block table full
  has changed nothing, and an allocation that finds the process table full has
  only split or marked its block.
\<close>

lemma split_at_invariant:
  assumes inv: "invariant sys space" and pos: "0 < sz"
    and k: "k < num_blocks sys" "fits sys sz k"
    and sp: "split_at sys sz k = Inr sys1"
  shows "invariant sys1 space"
proof -
  let ?b = "blocks sys ! k"
  let ?bt = "block_table sys"
  from inv have lenb: "length (blocks sys) = MAX_BLOCKS" and nb: "num_blocks sys \<le> MAX_BLOCKS"
    and cont: "contiguous 0 ?bt" and total: "sum_list (map size_b ?bt) = space"
    and space: "space \<le> INT_MAX"
    and lenp: "length (processes sys) = MAX_PROCESSES"
    and np: "num_processes sys \<le> MAX_PROCESSES"
    and owned: "\<forall>p \<in> set (active_processes sys). \<exists>b \<in> set ?bt.
         start b = memory_address p \<and> size_b b = memory_size p \<and> \<not> is_free b"
    and dist: "distinct (map memory_address (active_processes sys))"
    and q: "queue_ok sys"
    by (simp_all add: invariant_def blocks_ok_def processes_ok_def)
  have roomb: "size_b ?b \<noteq> sz \<longrightarrow> num_blocks sys < MAX_BLOCKS"
  proof (rule ccontr)
    assume "\<not> ?thesis"
    then have "split_at sys sz k = Inl (BlocksOutOfBounds, sys)"
      by (simp add: split_at_def)
    with sp show False by simp
  qed
  from split_at_effect [OF k(1) lenb nb roomb]
  obtain sys2 where sp2: "split_at sys sz k = Inr sys2"
    and bt2: "block_table sys2 = take k ?bt @ placed ?b sz @ drop (k + 1) ?bt"
    and nb2: "num_blocks sys2 = (if size_b ?b = sz then num_blocks sys else num_blocks sys + 1)"
    and lenb2: "length (blocks sys2) = length (blocks sys)"
    and fr2: "sys2\<lparr>blocks := blocks sys, num_blocks := num_blocks sys\<rparr> = sys"
    by blast
  from sp sp2 have same: "sys2 = sys1" by simp
  note bt' = bt2 [unfolded same] and nb' = nb2 [unfolded same]
    and lenb' = lenb2 [unfolded same] and fr = fr2 [unfolded same]
  have f1: "processes sys1 = processes sys" "num_processes sys1 = num_processes sys"
    "wait_queue sys1 = wait_queue sys" "wait_queue_count sys1 = wait_queue_count sys"
    "wait_queue_front sys1 = wait_queue_front sys" "wait_queue_rear sys1 = wait_queue_rear sys"
    using arg_cong [OF fr, of processes] arg_cong [OF fr, of num_processes]
      arg_cong [OF fr, of wait_queue] arg_cong [OF fr, of wait_queue_count]
      arg_cong [OF fr, of wait_queue_front] arg_cong [OF fr, of wait_queue_rear]
    by simp_all
  have len: "length ?bt = num_blocks sys" using lenb nb by (simp add: block_table_def)
  have bk: "?bt ! k = ?b" using k(1) by (simp add: block_table_nth)
  have split: "?bt = take k ?bt @ [?b] @ drop (k + 1) ?bt"
    using k(1) len bk id_take_nth_drop [of k ?bt] by simp
  have fit: "is_free ?b" "sz \<le> size_b ?b" using k(2) by (simp_all add: fits_def)
  from cont split have c1: "contiguous 0 (take k ?bt @ [?b] @ drop (k + 1) ?bt)" by simp
  have range: "0 \<le> start ?b" "start ?b + size_b ?b \<le> INT_MAX"
    using contiguous_within [OF cont, of k] k(1) len bk total space by simp_all
  have "contiguous 0 (block_table sys1)"
    unfolding bt' using c1 pos fit(2) range by (rule contiguous_placed)
  moreover have "sum_list (map size_b (block_table sys1)) = space"
  proof -
    have "sum_list (map size_b (block_table sys1)) =
        sum_list (map size_b (take k ?bt @ [?b] @ drop (k + 1) ?bt))"
      unfolding bt' by (rule contiguous_placed(2) [OF c1 pos fit(2) range])
    also have "\<dots> = sum_list (map size_b ?bt)"
      using arg_cong [OF split, of "\<lambda>l. sum_list (map size_b l)"] by simp
    finally show ?thesis using total by simp
  qed
  moreover have "num_blocks sys1 \<le> MAX_BLOCKS"
    using nb' nb roomb by auto
  ultimately have B: "blocks_ok sys1 space"
    using lenb' lenb space by (simp add: blocks_ok_def)
  have act: "active_processes sys1 = active_processes sys"
    by (simp add: active_processes_def process_table_def f1)
  have keep: "b \<in> set (block_table sys1)" if "b \<in> set ?bt" "\<not> is_free b" for b
  proof -
    from that fit(1) have "b \<noteq> ?bt ! k" using bk by auto
    with that(1) k(1) len have "b \<in> set (take k ?bt) \<union> set (drop (k + 1) ?bt)"
      by (intro in_set_take_drop) simp_all
    then show ?thesis unfolding bt' by auto
  qed
  have "\<forall>p \<in> set (active_processes sys1). \<exists>b \<in> set (block_table sys1).
         start b = memory_address p \<and> size_b b = memory_size p \<and> \<not> is_free b"
  proof
    fix p assume "p \<in> set (active_processes sys1)"
    with act owned obtain b where "b \<in> set ?bt" "start b = memory_address p"
      "size_b b = memory_size p" "\<not> is_free b" by auto
    with keep show "\<exists>b \<in> set (block_table sys1).
         start b = memory_address p \<and> size_b b = memory_size p \<and> \<not> is_free b" by blast
  qed
  with dist lenp np have P: "processes_ok sys1"
    by (simp add: processes_ok_def act f1)
  have Q: "queue_ok sys1" using q queue_ok_cong [OF f1(3-6)] by simp
  from B P Q show ?thesis by (simp add: invariant_def)
qed

lemma first_fit_allocate_fault_invariant:
  assumes inv: "invariant sys space" and pos: "0 < sz"
    and res: "first_fit_allocate sys pid sz = Inl (f, s)"
  shows "invariant s space"
proof (cases rule: first_fit_cases [of sys sz])
  case none
  from first_fit_allocate_not_found [OF none, of pid] res show ?thesis by simp
next
  case (found k)
  note ff = first_fit_allocate_found [OF found, of pid]
  show ?thesis
  proof (cases "split_at sys sz k")
    case (Inl e)
    with ff res have e: "split_at sys sz k = Inl (f, s)" by simp
    then have "s = sys" by (auto simp: split_at_def Let_def split: if_splits)
    with inv show ?thesis by simp
  next
    case (Inr sys1)
    with ff res have "record_process sys1 pid sz k = Inl (f, s)" by simp
    then have "s = sys1" by (auto simp: record_process_def split: if_splits)
    with split_at_invariant [OF inv pos found(1,2) Inr] show ?thesis by simp
  qed
qed

lemma try_allocate_waiting_process_fault_invariant:
  assumes inv: "invariant sys space"
    and res: "try_allocate_waiting_process sys = Inl (f, s)"
  shows "invariant s space"
proof -
  let ?w = "wait_queue sys ! wait_queue_front sys"
  from inv have Q: "queue_ok sys" by (simp add: invariant_def)
  have ne: "wait_queue_count sys \<noteq> 0"
  proof
    assume "wait_queue_count sys = 0"
    with res show False by (simp add: try_allocate_waiting_process_def)
  qed
  have ff: "first_fit_allocate sys (process_id ?w) (memory_size_w ?w) = Inl (f, s)"
  proof (cases "first_fit_allocate sys (process_id ?w) (memory_size_w ?w)")
    case (Inl e)
    with res ne show ?thesis
      by (simp add: try_allocate_waiting_process_def Let_def split: if_splits)
  next
    case (Inr r)
    obtain sys1 address where "r = (sys1, address)" by (cases r)
    with Inr res ne show ?thesis
      by (simp add: try_allocate_waiting_process_def Let_def split: if_splits)
  qed
  from queue_head(2) [OF Q ne] have "0 < memory_size_w ?w" .
  from first_fit_allocate_fault_invariant [OF inv this ff] show ?thesis .
qed

lemma drain_wait_queue_fault_invariant:
  "invariant sys space \<Longrightarrow> drain_wait_queue sys = Inl (f, s) \<Longrightarrow> invariant s space"
proof (induction sys rule: drain_wait_queue.induct)
  case (1 sys)
  show ?case
  proof (cases "try_allocate_waiting_process sys")
    case (Inl e)
    with "1.prems"(2) have "try_allocate_waiting_process sys = Inl (f, s)"
      by (simp add: drain_wait_queue.simps [of sys])
    from try_allocate_waiting_process_fault_invariant [OF "1.prems"(1) this] show ?thesis .
  next
    case (Inr r)
    obtain sys1 allocated where r: "r = (sys1, allocated)" by (cases r)
    from Inr r have t: "try_allocate_waiting_process sys = Inr (sys1, allocated)" by simp
    from try_allocate_waiting_process_invariant [OF "1.prems"(1) t]
    have inv1: "invariant sys1 space" .
    show ?thesis
    proof (cases "allocated = 0")
      case True
      with t "1.prems"(2) show ?thesis by (simp add: drain_wait_queue.simps [of sys])
    next
      case False
      with t "1.prems"(2) have "drain_wait_queue sys1 = Inl (f, s)"
        by (simp add: drain_wait_queue.simps [of sys])
      with "1.IH" [OF Inr r [symmetric] False inv1] show ?thesis .
    qed
  qed
qed

lemma free_block_loop_fault_invariant:
  assumes "invariant sys space"
    and "address \<notin> set (map memory_address (active_processes sys))"
    and "free_block_loop sys address j = Some (Inl (f, s))"
  shows "invariant s space"
  using assms
proof (induction sys address j rule: free_block_loop.induct)
  case (1 sys address j)
  note unfold = free_block_loop.simps [of sys address j]
  show ?case
  proof (cases "j < num_blocks sys")
    case False
    with "1.prems"(3) unfold show ?thesis by simp
  next
    case j: True
    show ?thesis
    proof (cases "start (blocks sys ! j) = address")
      case True
      with j "1.prems"(3) unfold have d: "drain_wait_queue
          (sys\<lparr>blocks := (blocks sys)[j := (blocks sys ! j)\<lparr>is_free := True\<rparr>]\<rparr>) = Inl (f, s)"
        by simp
      from True "1.prems"(2)
      have "start (blocks sys ! j) \<notin> set (map memory_address (active_processes sys))" by simp
      from release_invariant [OF "1.prems"(1) j this] d show ?thesis
        by (rule drain_wait_queue_fault_invariant)
    next
      case False
      with j "1.prems"(3) unfold have "free_block_loop sys address (j + 1) = Some (Inl (f, s))"
        by simp
      with "1.IH" [OF j False "1.prems"(1,2)] show ?thesis .
    qed
  qed
qed

lemma free_memory_loop_fault_invariant:
  "invariant sys space \<Longrightarrow> free_memory_loop sys pid i = Inl (f, s) \<Longrightarrow> invariant s space"
proof (induction sys pid i rule: free_memory_loop.induct)
  case (1 sys pid i)
  note unfold = free_memory_loop.simps [of sys pid i]
  let ?sys1 = "sys\<lparr>processes := (processes sys)[i := (processes sys ! i)\<lparr>is_active := False\<rparr>]\<rparr>"
  let ?a = "memory_address (processes sys ! i)"
  show ?case
  proof (cases "i < num_processes sys")
    case False
    with "1.prems" unfold show ?thesis by simp
  next
    case i: True
    show ?thesis
    proof (cases "id_p (processes sys ! i) = pid \<and> is_active (processes sys ! i)")
      case False
      with i "1.prems"(2) unfold have "free_memory_loop sys pid (i + 1) = Inl (f, s)"
        by auto
      with "1.IH"(2) [OF i False "1.prems"(1)] show ?thesis .
    next
      case m: True
      then have act: "is_active (processes sys ! i)" by simp
      note d = deactivate_invariant [OF "1.prems"(1) i act]
      show ?thesis
      proof (cases "free_block_loop ?sys1 ?a 0")
        case None
        with i m "1.prems"(2) unfold have "free_memory_loop ?sys1 pid (i + 1) = Inl (f, s)"
          by simp
        with "1.IH"(1) [OF i m None d(1)] show ?thesis .
      next
        case (Some res)
        show ?thesis
        proof (cases res)
          case (Inr sys2)
          with Some i m "1.prems"(2) unfold show ?thesis by simp
        next
          case (Inl e)
          with Some i m "1.prems"(2) unfold have "e = (f, s)" by simp
          with Some Inl free_block_loop_fault_invariant [OF d(1,2), of 0 f s] show ?thesis by simp
        qed
      qed
    qed
  qed
qed





subsection \<open>The invariant along a run\<close>

lemma main_step_invariant:
  assumes "invariant sys space" and "valid_request r"
    and "main_step (sys, next_id) r = Inr (sys', next_id')"
  shows "invariant sys' space"
proof (cases r)
  case (Allocate sz)
  from Allocate assms(2) have pos: "0 < sz" by simp
  show ?thesis
  proof (cases "first_fit_allocate sys next_id sz")
    case (Inl f)
    with Allocate assms(3) show ?thesis by simp
  next
    case (Inr res)
    obtain sys1 address where res: "res = (sys1, address)" by (cases res)
    with Inr Allocate assms(3) have "sys' = sys1" by simp
    with Inr res first_fit_allocate_invariant [OF assms(1) pos, of next_id sys1 address]
    show ?thesis by simp
  qed
next
  case (Free pid)
  show ?thesis
  proof (cases "free_memory sys pid")
    case (Inl f)
    with Free assms(3) show ?thesis by simp
  next
    case (Inr res)
    obtain r1 sys1 where res: "res = (r1, sys1)" by (cases res)
    with Inr Free assms(3) have "sys' = sys1" by simp
    with Inr res free_memory_loop_invariant [OF assms(1), of pid 0 r1 sys1]
    show ?thesis by (simp add: free_memory_def)
  qed
qed

lemma main_loop_invariant:
  "invariant sys space \<Longrightarrow> \<forall>r \<in> set rs. valid_request r \<Longrightarrow>
   main_loop (sys, next_id) rs = Inr (sys', next_id') \<Longrightarrow> invariant sys' space"
proof (induction rs arbitrary: sys next_id)
  case Nil
  then show ?case by simp
next
  case (Cons r rs)
  obtain sys1 id1 where
    step: "main_step (sys, next_id) r = Inr (sys1, id1)"
    and rest: "main_loop (sys1, id1) rs = Inr (sys', next_id')"
  proof (cases "main_step (sys, next_id) r")
    case (Inl f)
    with Cons.prems(3) show ?thesis by simp
  next
    case (Inr st)
    obtain sys1 id1 where st: "st = (sys1, id1)" by (cases st)
    with Inr Cons.prems(3) that show ?thesis by simp
  qed
  from Cons.prems(2) have "valid_request r" and all: "\<forall>r \<in> set rs. valid_request r" by simp_all
  from main_step_invariant [OF Cons.prems(1) this(1) step] have "invariant sys1 space" .
  from Cons.IH [OF this all rest] show ?case .
qed

lemma simulate_invariant:
  assumes "\<forall>sz \<in> set block_sizes. 1 \<le> sz" and "sum_list block_sizes \<le> INT_MAX"
    and "\<forall>r \<in> set rs. valid_request r"
    and "simulate block_sizes rs = Inr (sys, next_id)"
  shows "invariant sys (sum_list block_sizes)"
proof -
  obtain sys0 where init: "initialize_memory block_sizes = Inr sys0"
    and run: "main_loop (sys0, 1) rs = Inr (sys, next_id)"
  proof (cases "initialize_memory block_sizes")
    case (Inl f)
    with assms(4) show ?thesis by (simp add: simulate_def)
  next
    case (Inr sys0)
    with assms(4) that show ?thesis by (simp add: simulate_def)
  qed
  from initialize_memory_invariant [OF init assms(1,2)] assms(3) run show ?thesis
    by (rule main_loop_invariant)
qed

text \<open>
  The state in which a run ends: the state after the last request, or the state
  the program had reached when it issued a write past the end of a table.
\<close>

lemma main_step_fault_invariant:
  assumes "invariant sys space" and "valid_request r"
    and "main_step (sys, next_id) r = Inl (f, s)"
  shows "invariant s space"
proof (cases r)
  case (Allocate sz)
  from Allocate assms(2) have pos: "0 < sz" by simp
  show ?thesis
  proof (cases "first_fit_allocate sys next_id sz")
    case (Inl e)
    with Allocate assms(3) have "first_fit_allocate sys next_id sz = Inl (f, s)" by simp
    from first_fit_allocate_fault_invariant [OF assms(1) pos this] show ?thesis .
  next
    case (Inr res)
    obtain sys1 address where "res = (sys1, address)" by (cases res)
    with Inr Allocate assms(3) show ?thesis by simp
  qed
next
  case (Free pid)
  show ?thesis
  proof (cases "free_memory sys pid")
    case (Inl e)
    with Free assms(3) have "free_memory_loop sys pid 0 = Inl (f, s)"
      by (simp add: free_memory_def)
    from free_memory_loop_fault_invariant [OF assms(1) this] show ?thesis .
  next
    case (Inr res)
    obtain r1 sys1 where "res = (r1, sys1)" by (cases res)
    with Inr Free assms(3) show ?thesis by simp
  qed
qed

lemma main_loop_fault_invariant:
  "invariant sys space \<Longrightarrow> \<forall>r \<in> set rs. valid_request r \<Longrightarrow>
   main_loop (sys, next_id) rs = Inl (f, s) \<Longrightarrow> invariant s space"
proof (induction rs arbitrary: sys next_id)
  case Nil
  then show ?case by simp
next
  case (Cons r rs)
  from Cons.prems(2) have v: "valid_request r" and all: "\<forall>r \<in> set rs. valid_request r"
    by simp_all
  show ?case
  proof (cases "main_step (sys, next_id) r")
    case (Inl e)
    with Cons.prems(3) have "main_step (sys, next_id) r = Inl (f, s)" by simp
    from main_step_fault_invariant [OF Cons.prems(1) v this] show ?thesis .
  next
    case (Inr st)
    obtain sys1 id1 where st: "st = (sys1, id1)" by (cases st)
    with Inr have step: "main_step (sys, next_id) r = Inr (sys1, id1)" by simp
    with Cons.prems(3) have rest: "main_loop (sys1, id1) rs = Inl (f, s)" by simp
    from main_step_invariant [OF Cons.prems(1) v step] have "invariant sys1 space" .
    from Cons.IH [OF this all rest] show ?thesis .
  qed
qed

lemma simulate_reached_invariant:
  assumes "\<forall>sz \<in> set block_sizes. 1 \<le> sz" and "sum_list block_sizes \<le> INT_MAX"
    and "length block_sizes \<le> MAX_BLOCKS"
    and "\<forall>r \<in> set rs. valid_request r"
    and "simulate block_sizes rs = Inr (sys, next_id) \<or> simulate block_sizes rs = Inl (f, sys)"
  shows "invariant sys (sum_list block_sizes)"
proof -
  from assms(3) obtain sys0 where init: "initialize_memory block_sizes = Inr sys0"
    by (simp add: initialize_memory_def)
  note inv0 = initialize_memory_invariant [OF init assms(1,2)]
  from assms(5) show ?thesis
  proof
    assume "simulate block_sizes rs = Inr (sys, next_id)"
    with init have "main_loop (sys0, 1) rs = Inr (sys, next_id)" by (simp add: simulate_def)
    with inv0 assms(4) show ?thesis by (rule main_loop_invariant)
  next
    assume "simulate block_sizes rs = Inl (f, sys)"
    with init have "main_loop (sys0, 1) rs = Inl (f, sys)" by (simp add: simulate_def)
    with inv0 assms(4) show ?thesis by (rule main_loop_fault_invariant)
  qed
qed

subsection \<open>Total free memory, and free without a match\<close>

lemma total_free_loop_sum:
  "i \<le> num_blocks sys \<Longrightarrow> num_blocks sys \<le> length (blocks sys) \<Longrightarrow>
   \<forall>b \<in> set (block_table sys). 0 \<le> size_b b \<Longrightarrow> 0 \<le> acc \<Longrightarrow>
   acc + sum_list (map size_b (filter is_free (drop i (block_table sys)))) \<le> INT_MAX \<Longrightarrow>
   total_free_loop sys i acc =
     acc + sum_list (map size_b (filter is_free (drop i (block_table sys))))"
proof (induction sys i acc rule: total_free_loop.induct)
  case (1 sys i total_free)
  note unfold = total_free_loop.simps [of sys i total_free]
  let ?bt = "block_table sys"
  let ?rest = "sum_list (map size_b (filter is_free (drop (i + 1) ?bt)))"
  show ?case
  proof (cases "i < num_blocks sys")
    case False
    with "1.prems" unfold show ?thesis by (simp add: block_table_def)
  next
    case True
    with "1.prems" have il: "i < length ?bt" by (simp add: block_table_def)
    then have d: "drop i ?bt = ?bt ! i # drop (i + 1) ?bt"
      by (simp add: Cons_nth_drop_Suc)
    have bi: "?bt ! i = blocks sys ! i" using True by (rule block_table_nth)
    have "\<forall>b \<in> set (filter is_free (drop (i + 1) ?bt)). 0 \<le> size_b b"
      using "1.prems"(3) by (auto dest: in_set_dropD)
    then have rest: "0 \<le> ?rest" by (intro sum_list_nonneg) auto
    from il "1.prems"(3) bi have size: "0 \<le> size_b (blocks sys ! i)"
      by (metis nth_mem)
    show ?thesis
    proof (cases "is_free (blocks sys ! i)")
      case free: True
      let ?acc = "total_free + size_b (blocks sys ! i)"
      from "1.prems"(5) free have le: "?acc + ?rest \<le> INT_MAX"
        by (simp add: d bi)
      with rest size "1.prems"(4) have w: "int_wrap ?acc = ?acc"
        by (intro int_wrap_id) (auto simp: INT_MIN_def)
      have "total_free_loop sys (i + 1) (int_wrap ?acc) = int_wrap ?acc + ?rest"
        using "1.IH" [OF True] True "1.prems"(2,3,4) size le free by (simp add: w)
      with True free unfold show ?thesis by (simp add: d bi w)
    next
      case used: False
      from "1.prems"(5) used have le: "total_free + ?rest \<le> INT_MAX"
        by (simp add: d bi)
      have "total_free_loop sys (i + 1) total_free = total_free + ?rest"
        using "1.IH" [OF True] True "1.prems"(2,3,4) le used by simp
      with True used unfold show ?thesis by (simp add: d bi)
    qed
  qed
qed

lemma free_memory_loop_no_match:
  "\<forall>k. i \<le> k \<and> k < num_processes sys \<longrightarrow>
      \<not> (id_p (processes sys ! k) = pid \<and> is_active (processes sys ! k)) \<Longrightarrow>
   free_memory_loop sys pid i = Inr (NotFound, sys)"
proof (induction sys pid i rule: free_memory_loop.induct)
  case (1 sys pid i)
  note unfold = free_memory_loop.simps [of sys pid i]
  show ?case
  proof (cases "i < num_processes sys")
    case False
    with unfold show ?thesis by simp
  next
    case True
    with "1.prems" have no: "\<not> (id_p (processes sys ! i) = pid \<and> is_active (processes sys ! i))"
      by simp
    from "1.prems" have "\<forall>k. i + 1 \<le> k \<and> k < num_processes sys \<longrightarrow>
      \<not> (id_p (processes sys ! k) = pid \<and> is_active (processes sys ! k))"
      by simp
    from "1.IH"(2) [OF True no this] True no unfold show ?thesis by auto
  qed
qed

lemma sum_list_filter_le:
  "\<forall>x \<in> set xs. 0 \<le> f x \<Longrightarrow> sum_list (map f (filter P xs)) \<le> (sum_list (map f xs) :: int)"
  by (induction xs) (auto intro: add_increasing)

section \<open>Scenarios run on the code\<close>

text \<open>
  Claim C8. From the initial layout [100, 500, 200, 300, 600], a request of 212
  returns address 100 and splits the 500 block into an allocated block of 212 at
  100 and a free block of 288 at 312. The total free memory is then
  100 + 288 + 200 + 300 + 600 = 1488, no free block has size 900 or more, and a
  following request of 900 is not allocated: it returns \<open>-1\<close>, is placed on the
  wait queue, and leaves the block sequence and the process table as they were.
\<close>

theorem scenario_212_then_900:
  "(case initialize_memory [100, 500, 200, 300, 600] of
      Inl f \<Rightarrow> False
    | Inr sys0 \<Rightarrow>
       (case first_fit_allocate sys0 1 212 of
          Inl f \<Rightarrow> False
        | Inr (sys1, address1) \<Rightarrow>
            address1 = 100 \<and>
            block_table sys1 =
              [\<lparr>start = 0, size_b = 100, is_free = True\<rparr>,
               \<lparr>start = 100, size_b = 212, is_free = False\<rparr>,
               \<lparr>start = 312, size_b = 288, is_free = True\<rparr>,
               \<lparr>start = 600, size_b = 200, is_free = True\<rparr>,
               \<lparr>start = 800, size_b = 300, is_free = True\<rparr>,
               \<lparr>start = 1100, size_b = 600, is_free = True\<rparr>] \<and>
            active_processes sys1 =
              [\<lparr>id_p = 1, memory_address = 100, memory_size = 212, is_active = True\<rparr>] \<and>
            waiting sys1 = [] \<and>
            get_total_free_memory sys1 = 1488 \<and>
            list_all (\<lambda>b. \<not> (is_free b \<and> 900 \<le> size_b b)) (block_table sys1) \<and>
            (case first_fit_allocate sys1 2 900 of
               Inl f \<Rightarrow> False
             | Inr (sys2, address2) \<Rightarrow>
                 address2 = - 1 \<and>
                 allocate_report address2 = AddedToWaitQueue \<and>
                 waiting sys2 = [\<lparr>process_id = 2, memory_size_w = 900\<rparr>] \<and>
                 block_table sys2 = block_table sys1 \<and>
                 process_table sys2 = process_table sys1)))"
  by code_simp

text \<open>
  Claim C1 (the code departs from it). Blocks [100, 100]; processes 1 and 2 take
  one block each; the request of process 3 for 150 is queued; process 1 is freed
  (total free 100, the drain stops at the pre-check). When process 2 is freed the
  drain finds the queue holding only process 3, total free memory 200, at least
  the 150 asked for, and no single free block of 150. The attempt returns 0, so the
  drain stops, but it goes through \<open>first_fit_allocate\<close>, whose failure path
  enqueues: the queue now holds the request of process 3 twice.
\<close>

theorem failed_drain_attempt_enqueues_again:
  "(case simulate [100, 100] [Allocate 100, Allocate 100, Allocate 150, Free 1] of
      Inl f \<Rightarrow> False
    | Inr (sys, next_id) \<Rightarrow>
        (let drained = sys\<lparr>processes := (processes sys)[1 := (processes sys ! 1)\<lparr>is_active := False\<rparr>],
                          blocks := (blocks sys)[1 := (blocks sys ! 1)\<lparr>is_free := True\<rparr>]\<rparr>
         in waiting drained = [\<lparr>process_id = 3, memory_size_w = 150\<rparr>] \<and>
            get_total_free_memory drained = 200 \<and>
            list_all (\<lambda>b. \<not> (is_free b \<and> 150 \<le> size_b b)) (block_table drained) \<and>
            (case try_allocate_waiting_process drained of
               Inl f \<Rightarrow> False
             | Inr (sys1, allocated) \<Rightarrow>
                 allocated = 0 \<and>
                 waiting sys1 = [\<lparr>process_id = 3, memory_size_w = 150\<rparr>,
                                 \<lparr>process_id = 3, memory_size_w = 150\<rparr>] \<and>
                 active_processes sys1 = [] \<and>
                 free_memory sys 2 = Inr (Freed, sys1))))"
  by code_simp

text \<open>
  Claim C2 (the code departs from it). Neither table has a capacity check.
  With 50 blocks of size 2, a request of 1 needs a split: the code writes
  \<open>blocks[50]\<close>. With one block of 100, forty-nine requests of 1 and one of 51
  fill both tables; after process 1 is freed a request of 1 fits block 0 exactly:
  the code marks the block allocated and then writes \<open>processes[50]\<close>. In neither
  case is an error returned, and in the second the block table has already been
  changed.
\<close>

theorem full_tables_are_overrun:
  "(case initialize_memory (replicate 50 2) of
      Inl f \<Rightarrow> False
    | Inr sys0 \<Rightarrow>
        num_blocks sys0 = MAX_BLOCKS \<and>
        first_fit_allocate sys0 1 1 = Inl (BlocksOutOfBounds, sys0)) \<and>
   (case simulate [100] (replicate 49 (Allocate 1) @ [Allocate 51, Free 1]) of
      Inl f \<Rightarrow> False
    | Inr (sys, next_id) \<Rightarrow>
        num_processes sys = MAX_PROCESSES \<and>
        (case first_fit_allocate sys next_id 1 of
           Inr x \<Rightarrow> False
         | Inl (f, sys1) \<Rightarrow>
             f = ProcessesOutOfBounds \<and>
             is_free (blocks sys ! 0) \<and> \<not> is_free (blocks sys1 ! 0) \<and>
             process_table sys1 = process_table sys))"
  by code_simp

text \<open>
  Claim C7 (the code departs from it). One block of size 1, taken by process 1;
  fifty further requests of 1 fill the wait queue; the next request finds no block
  and a full queue. \<open>first_fit_allocate\<close> returns \<open>-1\<close> and changes nothing, the
  same value it returned for each request it did enqueue, and \<open>main\<close> reports
  "added to wait queue" for it as well.
\<close>

theorem full_queue_returns_as_queued:
  "(case simulate [1] (replicate 50 (Allocate 1)) of
      Inl f \<Rightarrow> False
    | Inr (sys, next_id) \<Rightarrow>
        wait_queue_count sys = 49 \<and>
        (case first_fit_allocate sys next_id 1 of
           Inl f \<Rightarrow> False
         | Inr (sys1, address1) \<Rightarrow>
             address1 = - 1 \<and> allocate_report address1 = AddedToWaitQueue \<and>
             wait_queue_count sys1 = MAX_WAIT_QUEUE \<and>
             (case first_fit_allocate sys1 (next_id + 1) 1 of
                Inl f \<Rightarrow> False
              | Inr (sys2, address2) \<Rightarrow>
                  address2 = - 1 \<and> allocate_report address2 = AddedToWaitQueue \<and>
                  sys2 = sys1)))"
  by code_simp

text \<open>
  Claim C9 (the code departs from it). Blocks [100, 100, 150]; processes 1, 2, 3
  take one block each and the request of process 4 for 150 is queued. Freeing 1
  and 2 leaves the request of process 4 queued twice (the defect shown for C1),
  and freeing 3 allocates process 4 at 200 with its request still queued. Freeing
  process 4 releases its block, and the drain allocates the queued duplicate:
  process 4 is active again. A second free of process 4 therefore prints "freed",
  not "not found", and changes the state.
\<close>

theorem second_free_finds_process_again:
  "(case simulate [100, 100, 150]
           [Allocate 100, Allocate 100, Allocate 150, Allocate 150, Free 1, Free 2, Free 3] of
      Inl f \<Rightarrow> False
    | Inr (sys, next_id) \<Rightarrow>
        active_processes sys =
          [\<lparr>id_p = 4, memory_address = 200, memory_size = 150, is_active = True\<rparr>] \<and>
        (case free_memory sys 4 of
           Inl f \<Rightarrow> False
         | Inr (r1, sys1) \<Rightarrow>
             r1 = Freed \<and>
             active_processes sys1 =
               [\<lparr>id_p = 4, memory_address = 200, memory_size = 150, is_active = True\<rparr>] \<and>
             (case free_memory sys1 4 of
                Inl f \<Rightarrow> False
              | Inr (r2, sys2) \<Rightarrow> r2 = Freed \<and> sys2 \<noteq> sys1)))"
  by code_simp

section \<open>The first-fit choice and the split\<close>

text \<open>
  Claim C3, as stated, at a state the program reaches. The block sizes entered
  are 2147483647 and 100, and the first request takes the whole first block. The
  second block starts at 2147483647 and is free, of size 100. A request of 50 is
  placed there: the allocated part starts at 2147483647, and the free remainder
  of size 50 starts at \<open>-2147483599\<close>, not at 2147483647 + 50, which no \<open>int\<close>
  can hold.
\<close>

theorem split_remainder_start_wraps:
  "(case simulate [2147483647, 100] [Allocate 2147483647] of
      Inl f \<Rightarrow> False
    | Inr (sys, next_id) \<Rightarrow>
        fits sys 50 1 \<and> \<not> fits sys 50 0 \<and>
        blocks sys ! 1 = \<lparr>start = 2147483647, size_b = 100, is_free = True\<rparr> \<and>
        (case first_fit_allocate sys next_id 50 of
           Inl f \<Rightarrow> False
         | Inr (sys', address) \<Rightarrow>
             address = 2147483647 \<and>
             block_table sys' =
               [\<lparr>start = 0, size_b = 2147483647, is_free = False\<rparr>,
                \<lparr>start = 2147483647, size_b = 50, is_free = False\<rparr>,
                \<lparr>start = - 2147483599, size_b = 50, is_free = True\<rparr>] \<and>
             start (blocks sys' ! 2) \<noteq> start (blocks sys ! 1) + 50))"
  by code_simp

text \<open>
  Claim C3, for blocks whose split stays within the range of \<open>int\<close>. Let the block
  chosen for a request of \<open>R\<close> be the one at index \<open>k\<close>: free, of size \<open>S\<close> at
  least \<open>R\<close>, with no such block before it. Let the process table have room, and
  when \<open>R < S\<close> let the block table have room and let start + \<open>R\<close> and \<open>S - R\<close> be
  representable as \<open>int\<close>. Then the call returns the block's start. When \<open>R < S\<close>
  the block sequence afterwards is the old one with that block replaced by a
  block of size \<open>R\<close>, allocated, at the old start, immediately followed by a free
  block of size \<open>S - R\<close> at start + \<open>R\<close>; the blocks behind come one position
  later and the block count is one more. When \<open>R = S\<close> the block is marked
  allocated and nothing else changes in the sequence.
\<close>

theorem split_correct:
  assumes "length (blocks sys) = MAX_BLOCKS" and "length (processes sys) = MAX_PROCESSES"
    and "num_blocks sys \<le> MAX_BLOCKS"
    and "k < num_blocks sys" and "fits sys R k" and "\<forall>j<k. \<not> fits sys R j"
    and "num_processes sys < MAX_PROCESSES"
    and "R < size_b (blocks sys ! k) \<longrightarrow> num_blocks sys < MAX_BLOCKS"
    and "R < size_b (blocks sys ! k) \<longrightarrow>
           INT_MIN \<le> start (blocks sys ! k) + R \<and> start (blocks sys ! k) + R \<le> INT_MAX \<and>
           size_b (blocks sys ! k) - R \<le> INT_MAX"
  shows "\<exists>sys'. first_fit_allocate sys pid R = Inr (sys', start (blocks sys ! k)) \<and>
     (if R < size_b (blocks sys ! k)
      then block_table sys' =
             take k (block_table sys) @
             [\<lparr>start = start (blocks sys ! k), size_b = R, is_free = False\<rparr>,
              \<lparr>start = start (blocks sys ! k) + R, size_b = size_b (blocks sys ! k) - R,
               is_free = True\<rparr>] @
             drop (k + 1) (block_table sys) \<and>
           num_blocks sys' = num_blocks sys + 1
      else block_table sys' = (block_table sys)[k := (blocks sys ! k)\<lparr>is_free := False\<rparr>] \<and>
           num_blocks sys' = num_blocks sys)"
proof -
  let ?b = "blocks sys ! k"
  from assms(5) have le: "R \<le> size_b ?b" by (simp add: fits_def)
  then have room: "size_b ?b \<noteq> R \<longrightarrow> num_blocks sys < MAX_BLOCKS"
    using assms(8) by auto
  from first_fit_allocate_effect [OF assms(4-6) assms(1) assms(3) assms(2) room assms(7), of pid]
  obtain sys' where ff: "first_fit_allocate sys pid R = Inr (sys', start ?b)"
    and bt: "block_table sys' =
           take k (block_table sys) @ placed ?b R @ drop (k + 1) (block_table sys)"
    and n: "num_blocks sys' = (if size_b ?b = R then num_blocks sys else num_blocks sys + 1)"
    by blast
  show ?thesis
  proof (cases "R < size_b ?b")
    case True
    with assms(9) have "int_wrap (start ?b + R) = start ?b + R"
      by (intro int_wrap_id) simp_all
    moreover from True assms(9) have "int_wrap (size_b ?b - R) = size_b ?b - R"
      by (intro int_wrap_id) (simp_all add: INT_MIN_def)
    ultimately show ?thesis using True ff bt n by (auto simp: placed_def)
  next
    case False
    with le have eq: "size_b ?b = R" by simp
    have kl: "k < length (block_table sys)"
      using assms(1,3,4) by (simp add: block_table_def)
    have "(block_table sys)[k := ?b\<lparr>is_free := False\<rparr>] =
        take k (block_table sys) @ [\<lparr>start = start ?b, size_b = R, is_free = False\<rparr>] @
        drop (k + 1) (block_table sys)"
      using kl eq by (simp add: upd_conv_take_nth_drop placed_exact_update)
    with ff bt n eq False show ?thesis by (auto simp: placed_def)
  qed
qed

theorem split_correct_witness:
  "(\<exists>sys'. first_fit_allocate example_memory 1 212 = Inr (sys', 100) \<and>
     block_table sys' =
       [\<lparr>start = 0, size_b = 100, is_free = True\<rparr>,
        \<lparr>start = 100, size_b = 212, is_free = False\<rparr>,
        \<lparr>start = 312, size_b = 288, is_free = True\<rparr>,
        \<lparr>start = 600, size_b = 200, is_free = True\<rparr>,
        \<lparr>start = 800, size_b = 300, is_free = True\<rparr>,
        \<lparr>start = 1100, size_b = 600, is_free = True\<rparr>] \<and>
     num_blocks sys' = 6) \<and>
   (\<exists>sys'. first_fit_allocate example_memory 1 100 = Inr (sys', 0) \<and>
     block_table sys' =
       [\<lparr>start = 0, size_b = 100, is_free = False\<rparr>,
        \<lparr>start = 100, size_b = 500, is_free = True\<rparr>,
        \<lparr>start = 600, size_b = 200, is_free = True\<rparr>,
        \<lparr>start = 800, size_b = 300, is_free = True\<rparr>,
        \<lparr>start = 1100, size_b = 600, is_free = True\<rparr>] \<and>
     num_blocks sys' = 5)"
  using split_correct [of example_memory 1 212 1] split_correct [of example_memory 0 100 1]
  by (simp add: example_memory_def fits_def block_table_def MAX_BLOCKS_def MAX_PROCESSES_def
       INT_MIN_def INT_MAX_def)



section \<open>Head-of-line blocking\<close>

text \<open>
  Claim C6. When the queue is not empty and the total free memory is less than the
  size the head asks for, an attempt of the drain returns 0 with the state exactly
  as it was, and so does the whole drain: nothing is allocated, whatever is queued
  behind the head. More generally, one attempt of the drain on a state whose
  tables are within their bounds either allocates nothing and leaves the head at
  the front (block and process tables unchanged), or allocates the head itself and
  moves the front by one: a request behind the head is never served while the head
  is at the front.
\<close>

theorem head_of_line_blocking:
  "(wait_queue_count sys \<noteq> 0 \<and>
    get_total_free_memory sys < memory_size_w (wait_queue sys ! wait_queue_front sys) \<longrightarrow>
      try_allocate_waiting_process sys = Inr (sys, 0) \<and> drain_wait_queue sys = Inr sys) \<and>
   (length (blocks sys) = MAX_BLOCKS \<and> num_blocks sys \<le> MAX_BLOCKS \<and>
    length (processes sys) = MAX_PROCESSES \<and>
    (\<forall>i<num_blocks sys. start (blocks sys ! i) \<noteq> - 1) \<and>
    try_allocate_waiting_process sys = Inr (sys', allocated) \<longrightarrow>
      (allocated = 0 \<and> block_table sys' = block_table sys \<and>
       process_table sys' = process_table sys \<and>
       wait_queue_front sys' = wait_queue_front sys) \<or>
      (allocated = 1 \<and>
       (\<exists>address. process_table sys' = process_table sys @
          [\<lparr>id_p = process_id (wait_queue sys ! wait_queue_front sys),
            memory_address = address,
            memory_size = memory_size_w (wait_queue sys ! wait_queue_front sys),
            is_active = True\<rparr>]) \<and>
       wait_queue_front sys' = (wait_queue_front sys + 1) mod MAX_WAIT_QUEUE \<and>
       wait_queue_count sys' = wait_queue_count sys - 1))"
proof (intro conjI impI)
  assume a: "wait_queue_count sys \<noteq> 0 \<and>
    get_total_free_memory sys < memory_size_w (wait_queue sys ! wait_queue_front sys)"
  then show "try_allocate_waiting_process sys = Inr (sys, 0)"
    by (simp add: try_allocate_waiting_process_def Let_def)
  then show "drain_wait_queue sys = Inr sys"
    by (rule drain_wait_queue_stop)
next
  let ?w = "wait_queue sys ! wait_queue_front sys"
  assume a: "length (blocks sys) = MAX_BLOCKS \<and> num_blocks sys \<le> MAX_BLOCKS \<and>
    length (processes sys) = MAX_PROCESSES \<and>
    (\<forall>i<num_blocks sys. start (blocks sys ! i) \<noteq> - 1) \<and>
    try_allocate_waiting_process sys = Inr (sys', allocated)"
  then have lenb: "length (blocks sys) = MAX_BLOCKS" and nb: "num_blocks sys \<le> MAX_BLOCKS"
    and lenp: "length (processes sys) = MAX_PROCESSES"
    and starts: "\<forall>i<num_blocks sys. start (blocks sys ! i) \<noteq> - 1"
    and res: "try_allocate_waiting_process sys = Inr (sys', allocated)"
    by simp_all
  from lenb nb lenp starts res
  show "(allocated = 0 \<and> block_table sys' = block_table sys \<and>
       process_table sys' = process_table sys \<and>
       wait_queue_front sys' = wait_queue_front sys) \<or>
      (allocated = 1 \<and>
       (\<exists>address. process_table sys' = process_table sys @
          [\<lparr>id_p = process_id ?w, memory_address = address,
            memory_size = memory_size_w ?w, is_active = True\<rparr>]) \<and>
       wait_queue_front sys' = (wait_queue_front sys + 1) mod MAX_WAIT_QUEUE \<and>
       wait_queue_count sys' = wait_queue_count sys - 1)"
  proof (cases rule: try_allocate_waiting_process_cases)
    case empty
    then show ?thesis by simp
  next
    case short
    then show ?thesis by simp
  next
    case fragmented
    then show ?thesis by (simp add: add_to_wait_queue_tables add_to_wait_queue_frame)
  next
    case (served k sys1)
    note room = first_fit_allocate_room [OF served(3-5) lenb nb served(6)]
    from first_fit_allocate_effect [OF served(3-5) lenb nb lenp room, of "process_id ?w"] served(6)
    have "process_table sys1 = process_table sys @
           [\<lparr>id_p = process_id ?w, memory_address = start (blocks sys ! k),
             memory_size = memory_size_w ?w, is_active = True\<rparr>]"
      and "wait_queue_count sys1 = wait_queue_count sys"
      and "wait_queue_front sys1 = wait_queue_front sys"
      by auto
    with served(7,8) show ?thesis by (auto simp: process_table_def)
  qed
qed

theorem head_of_line_blocking_witness:
  "waiting blocked_memory =
     [\<lparr>process_id = 3, memory_size_w = 200\<rparr>, \<lparr>process_id = 4, memory_size_w = 50\<rparr>] \<and>
   get_total_free_memory blocked_memory = 50 \<and>
   fits blocked_memory 50 1 \<and>
   try_allocate_waiting_process blocked_memory = Inr (blocked_memory, 0) \<and>
   drain_wait_queue blocked_memory = Inr blocked_memory \<and>
   (\<exists>sys' address.
      try_allocate_waiting_process
        (blocked_memory\<lparr>blocks := (blocks blocked_memory)
           [0 := \<lparr>start = 0, size_b = 300, is_free = True\<rparr>]\<rparr>) = Inr (sys', 1) \<and>
      process_table sys' = process_table blocked_memory @
        [\<lparr>id_p = 3, memory_address = address, memory_size = 200, is_active = True\<rparr>])"
proof -
  have q: "waiting blocked_memory =
     [\<lparr>process_id = 3, memory_size_w = 200\<rparr>, \<lparr>process_id = 4, memory_size_w = 50\<rparr>]"
    by code_simp
  have free: "get_total_free_memory blocked_memory = 50" by code_simp
  have fit: "fits blocked_memory 50 1" by code_simp
  have pre: "wait_queue_count blocked_memory \<noteq> 0 \<and>
    get_total_free_memory blocked_memory <
      memory_size_w (wait_queue blocked_memory ! wait_queue_front blocked_memory)"
    by code_simp
  from head_of_line_blocking [of blocked_memory blocked_memory 0] pre
  have stop: "try_allocate_waiting_process blocked_memory = Inr (blocked_memory, 0)"
    and drain: "drain_wait_queue blocked_memory = Inr blocked_memory"
    by blast+
  define released where "released =
    blocked_memory\<lparr>blocks := (blocks blocked_memory)
      [0 := \<lparr>start = 0, size_b = 300, is_free = True\<rparr>]\<rparr>"
  have "case try_allocate_waiting_process
        (blocked_memory\<lparr>blocks := (blocks blocked_memory)
           [0 := \<lparr>start = 0, size_b = 300, is_free = True\<rparr>]\<rparr>) of
      Inl f \<Rightarrow> False | Inr (sys', allocated) \<Rightarrow> allocated = 1"
    by code_simp
  then obtain sys' where res: "try_allocate_waiting_process released = Inr (sys', 1)"
    unfolding released_def by (auto split: sum.splits)
  have wf: "length (blocks released) = MAX_BLOCKS" "num_blocks released \<le> MAX_BLOCKS"
    "length (processes released) = MAX_PROCESSES"
    by (simp_all add: released_def blocked_memory_def MAX_BLOCKS_def MAX_PROCESSES_def)
  have starts: "\<forall>i<num_blocks released. start (blocks released ! i) \<noteq> - 1"
    by (simp add: released_def blocked_memory_def less_Suc_eq numeral_2_eq_2)
  have head: "process_id (wait_queue released ! wait_queue_front released) = 3"
    "memory_size_w (wait_queue released ! wait_queue_front released) = 200"
    "process_table released = process_table blocked_memory"
    by (simp_all add: released_def blocked_memory_def process_table_def)
  from head_of_line_blocking [of released sys' 1] wf starts res
  have "\<exists>address. process_table sys' = process_table released @
      [\<lparr>id_p = process_id (wait_queue released ! wait_queue_front released),
        memory_address = address,
        memory_size = memory_size_w (wait_queue released ! wait_queue_front released),
        is_active = True\<rparr>]"
    by simp
  with res have "\<exists>sys' address. try_allocate_waiting_process released = Inr (sys', 1) \<and>
      process_table sys' = process_table blocked_memory @
        [\<lparr>id_p = 3, memory_address = address, memory_size = 200, is_active = True\<rparr>]"
    unfolding head by blast
  with q free fit stop drain show ?thesis unfolding released_def by blast
qed

section \<open>Invariants of a run\<close>

text \<open>
  Claim C4, as stated, at a run the program accepts. The block sizes entered are
  2147483647, 1 and 1; process 1 is given one unit and frees it again. The starts
  of the block sequence are then 0, 1, 2147483647 and \<open>-2147483648\<close>: the third
  block's start plus its size is not the start of the fourth block, and the starts
  are not ascending.
\<close>

theorem block_starts_wrap_around:
  "(case simulate [2147483647, 1, 1] [Allocate 1, Free 1] of
      Inl f \<Rightarrow> False
    | Inr (sys, next_id) \<Rightarrow>
        block_table sys =
          [\<lparr>start = 0, size_b = 1, is_free = True\<rparr>,
           \<lparr>start = 1, size_b = 2147483646, is_free = True\<rparr>,
           \<lparr>start = 2147483647, size_b = 1, is_free = True\<rparr>,
           \<lparr>start = - 2147483648, size_b = 1, is_free = True\<rparr>] \<and>
        start (blocks sys ! 2) + size_b (blocks sys ! 2) \<noteq> start (blocks sys ! 3) \<and>
        \<not> start (blocks sys ! 2) < start (blocks sys ! 3))"
  by code_simp

text \<open>
  Claim C4, for an address space that fits an \<open>int\<close>. Take any run of the program:
  at most \<open>MAX_BLOCKS\<close> block sizes of at least 1 whose sum is at most \<open>INT_MAX\<close>,
  then any sequence of allocation requests (of size at least 1) and free
  requests, as \<open>main\<close> accepts them. Let \<open>sys\<close> be the state in which the run
  ends: the state after the last request, or the state the program had reached
  when it issued a write past the end of a table (see C2; what the program does
  after such a write is not described). In that state the first block starts at
  0, each block's start plus its size is the start of the next block, the starts
  are strictly ascending and no block reaches into a later one, every block is
  non-empty, and the sizes of the blocks sum to the sum of the sizes entered at
  the start.
\<close>

theorem block_sequence_invariant:
  assumes "\<forall>sz \<in> set block_sizes. 1 \<le> sz" and "sum_list block_sizes \<le> INT_MAX"
    and "length block_sizes \<le> MAX_BLOCKS"
    and "\<forall>r \<in> set rs. valid_request r"
    and "simulate block_sizes rs = Inr (sys, next_id) \<or> simulate block_sizes rs = Inl (f, sys)"
  shows "(0 < num_blocks sys \<longrightarrow> start (blocks sys ! 0) = 0) \<and>
     (\<forall>i. i + 1 < num_blocks sys \<longrightarrow>
        start (blocks sys ! i) + size_b (blocks sys ! i) = start (blocks sys ! (i + 1))) \<and>
     (\<forall>i j. i < j \<and> j < num_blocks sys \<longrightarrow>
        start (blocks sys ! i) < start (blocks sys ! j) \<and>
        start (blocks sys ! i) + size_b (blocks sys ! i) \<le> start (blocks sys ! j)) \<and>
     (\<forall>i<num_blocks sys. 0 < size_b (blocks sys ! i)) \<and>
     sum_list (map size_b (block_table sys)) = sum_list block_sizes"
proof -
  let ?bt = "block_table sys"
  from simulate_reached_invariant [OF assms] have
    c: "contiguous 0 ?bt" and len: "length ?bt = num_blocks sys"
    and total: "sum_list (map size_b ?bt) = sum_list block_sizes"
    by (simp_all add: invariant_def blocks_ok_def block_table_def)
  have first: "0 < num_blocks sys \<longrightarrow> start (blocks sys ! 0) = 0"
    using contiguous_start_nth [OF c, of 0] len by (auto simp: block_table_nth)
  have adjacent: "\<forall>i. i + 1 < num_blocks sys \<longrightarrow>
        start (blocks sys ! i) + size_b (blocks sys ! i) = start (blocks sys ! (i + 1))"
    using contiguous_adjacent [OF c] len by (auto simp: block_table_nth)
  have ordered: "\<forall>i j. i < j \<and> j < num_blocks sys \<longrightarrow>
        start (blocks sys ! i) < start (blocks sys ! j) \<and>
        start (blocks sys ! i) + size_b (blocks sys ! i) \<le> start (blocks sys ! j)"
  proof (intro allI impI)
    fix i j assume ij: "i < j \<and> j < num_blocks sys"
    then have "i < num_blocks sys" by simp
    with ij contiguous_strict [OF c, of i j] contiguous_no_overlap [OF c, of i j] len
    show "start (blocks sys ! i) < start (blocks sys ! j) \<and>
        start (blocks sys ! i) + size_b (blocks sys ! i) \<le> start (blocks sys ! j)"
      by (simp add: block_table_nth)
  qed
  have positive: "\<forall>i<num_blocks sys. 0 < size_b (blocks sys ! i)"
  proof (intro allI impI)
    fix i assume i: "i < num_blocks sys"
    with len have "?bt ! i \<in> set ?bt" by simp
    from contiguous_size_pos [OF c this] i show "0 < size_b (blocks sys ! i)"
      by (simp add: block_table_nth)
  qed
  from first adjacent ordered positive total show ?thesis by blast
qed

theorem block_sequence_invariant_witness:
  "(\<exists>sys next_id.
      simulate [100, 500, 200, 300, 600] [Allocate 212, Allocate 900, Free 1, Allocate 100] =
        Inr (sys, next_id) \<and>
      num_blocks sys = 6 \<and>
      start (blocks sys ! 0) = 0 \<and>
      start (blocks sys ! 1) + size_b (blocks sys ! 1) = start (blocks sys ! 2) \<and>
      start (blocks sys ! 2) < start (blocks sys ! 5) \<and>
      0 < size_b (blocks sys ! 5) \<and>
      sum_list (map size_b (block_table sys)) = 1700) \<and>
   (\<exists>sys.
      simulate (replicate 50 2) [Allocate 2, Allocate 1] = Inl (BlocksOutOfBounds, sys) \<and>
      num_blocks sys = 50 \<and>
      start (blocks sys ! 0) = 0 \<and>
      start (blocks sys ! 1) + size_b (blocks sys ! 1) = start (blocks sys ! 2) \<and>
      start (blocks sys ! 2) < start (blocks sys ! 49) \<and>
      sum_list (map size_b (block_table sys)) = 100)"
proof -
  let ?sizes = "[100, 500, 200, 300, 600] :: int list"
  let ?rs = "[Allocate 212, Allocate 900, Free 1, Allocate 100]"
  have "case simulate ?sizes ?rs of Inl f \<Rightarrow> False | Inr (sys, next_id) \<Rightarrow> num_blocks sys = 6"
    by code_simp
  then obtain sys next_id where run: "simulate ?sizes ?rs = Inr (sys, next_id)"
    and nb: "num_blocks sys = 6"
    by (auto split: sum.splits)
  have h1: "\<forall>sz \<in> set ?sizes. 1 \<le> sz" by simp
  have h2: "\<forall>r \<in> set ?rs. valid_request r" by simp
  have h3: "sum_list ?sizes \<le> INT_MAX" by (simp add: INT_MAX_def)
  have h4: "length ?sizes \<le> MAX_BLOCKS" by (simp add: MAX_BLOCKS_def)
  from block_sequence_invariant [OF h1 h3 h4 h2 disjI1, OF run] nb
  have "start (blocks sys ! 0) = 0"
    and "start (blocks sys ! 1) + size_b (blocks sys ! 1) = start (blocks sys ! (1 + 1))"
    and "start (blocks sys ! 2) < start (blocks sys ! 5)"
    and "0 < size_b (blocks sys ! 5)"
    and "sum_list (map size_b (block_table sys)) = 1700"
    by simp_all
  with run nb have normal: "\<exists>sys next_id.
      simulate ?sizes ?rs = Inr (sys, next_id) \<and>
      num_blocks sys = 6 \<and>
      start (blocks sys ! 0) = 0 \<and>
      start (blocks sys ! 1) + size_b (blocks sys ! 1) = start (blocks sys ! 2) \<and>
      start (blocks sys ! 2) < start (blocks sys ! 5) \<and>
      0 < size_b (blocks sys ! 5) \<and>
      sum_list (map size_b (block_table sys)) = 1700"
    by (intro exI [of _ sys] exI [of _ next_id]) (simp add: numeral_2_eq_2)
  let ?full = "replicate 50 2 :: int list"
  let ?qs = "[Allocate 2, Allocate 1]"
  have "case simulate ?full ?qs of
      Inl (f, sys) \<Rightarrow> f = BlocksOutOfBounds \<and> num_blocks sys = 50
    | Inr r \<Rightarrow> False"
    by code_simp
  then obtain s where stop: "simulate ?full ?qs = Inl (BlocksOutOfBounds, s)"
    and nbs: "num_blocks s = 50"
    by (auto split: sum.splits)
  have g1: "\<forall>sz \<in> set ?full. 1 \<le> sz" by simp
  have g2: "\<forall>r \<in> set ?qs. valid_request r" by simp
  have g3: "sum_list ?full \<le> INT_MAX" by (simp add: INT_MAX_def sum_list_replicate)
  have g4: "length ?full \<le> MAX_BLOCKS" by (simp add: MAX_BLOCKS_def)
  from block_sequence_invariant [OF g1 g3 g4 g2 disjI2, OF stop] nbs
  have "start (blocks s ! 0) = 0"
    and "start (blocks s ! 1) + size_b (blocks s ! 1) = start (blocks s ! (1 + 1))"
    and "start (blocks s ! 2) < start (blocks s ! 49)"
    and "sum_list (map size_b (block_table s)) = 100"
    by (simp_all add: sum_list_replicate)
  with stop nbs have stopped: "\<exists>sys.
      simulate ?full ?qs = Inl (BlocksOutOfBounds, sys) \<and>
      num_blocks sys = 50 \<and>
      start (blocks sys ! 0) = 0 \<and>
      start (blocks sys ! 1) + size_b (blocks sys ! 1) = start (blocks sys ! 2) \<and>
      start (blocks sys ! 2) < start (blocks sys ! 49) \<and>
      sum_list (map size_b (block_table sys)) = 100"
    by (intro exI [of _ s]) (simp add: numeral_2_eq_2)
  from normal stopped show ?thesis by blast
qed




section \<open>Further properties of the code\<close>

text \<open>
  \<open>get_total_free_memory\<close> returns the sum of the sizes of the free blocks of the
  block sequence.
\<close>

theorem total_free_is_sum_of_free_blocks:
  assumes "num_blocks sys \<le> length (blocks sys)"
    and "\<forall>b \<in> set (block_table sys). 0 \<le> size_b b"
    and "sum_list (map size_b (filter is_free (block_table sys))) \<le> INT_MAX"
  shows "get_total_free_memory sys = sum_list (map size_b (filter is_free (block_table sys)))"
  using total_free_loop_sum [of 0 sys 0] assms by (simp add: get_total_free_memory_def)

theorem total_free_is_sum_of_free_blocks_witness:
  "num_blocks blocked_memory \<le> length (blocks blocked_memory) \<and>
   filter is_free (block_table blocked_memory) = [\<lparr>start = 300, size_b = 50, is_free = True\<rparr>] \<and>
   get_total_free_memory blocked_memory = 50"
proof -
  have h: "num_blocks blocked_memory \<le> length (blocks blocked_memory)" by code_simp
  have bt: "block_table blocked_memory =
      [\<lparr>start = 0, size_b = 300, is_free = False\<rparr>, \<lparr>start = 300, size_b = 50, is_free = True\<rparr>]"
    by code_simp
  have n: "\<forall>b \<in> set (block_table blocked_memory). 0 \<le> size_b b" by (simp add: bt)
  have f: "filter is_free (block_table blocked_memory) =
      [\<lparr>start = 300, size_b = 50, is_free = True\<rparr>]" by (simp add: bt)
  have m: "sum_list (map size_b (filter is_free (block_table blocked_memory))) \<le> INT_MAX"
    by (simp add: f INT_MAX_def)
  from total_free_is_sum_of_free_blocks [OF h n m] f h show ?thesis by simp
qed

text \<open>
  When no block fits, \<open>first_fit_allocate\<close> produces no address (it returns \<open>-1\<close>)
  and leaves the block sequence and the process table as they were; with a full
  queue the whole state is unchanged, and otherwise the request is appended to the
  wait queue.
\<close>

theorem no_fit_returns_minus_one:
  assumes "\<forall>j<num_blocks sys. \<not> fits sys sz j"
  shows "\<exists>sys'. first_fit_allocate sys pid sz = Inr (sys', - 1) \<and>
     block_table sys' = block_table sys \<and> process_table sys' = process_table sys \<and>
     (MAX_WAIT_QUEUE \<le> wait_queue_count sys \<longrightarrow> sys' = sys) \<and>
     (wait_queue_count sys < MAX_WAIT_QUEUE \<and> queue_ok sys \<and> 0 < sz \<longrightarrow>
        waiting sys' = waiting sys @ [\<lparr>process_id = pid, memory_size_w = sz\<rparr>])"
proof -
  let ?sys' = "fst (add_to_wait_queue sys pid sz)"
  have "first_fit_allocate sys pid sz = Inr (?sys', - 1)"
    using assms by (rule first_fit_allocate_not_found)
  moreover have "block_table ?sys' = block_table sys" "process_table ?sys' = process_table sys"
    by (rule add_to_wait_queue_tables)+
  moreover have "MAX_WAIT_QUEUE \<le> wait_queue_count sys \<longrightarrow> ?sys' = sys"
    by (simp add: full_queue_unchanged)
  moreover have "wait_queue_count sys < MAX_WAIT_QUEUE \<and> queue_ok sys \<and> 0 < sz \<longrightarrow>
        waiting ?sys' = waiting sys @ [\<lparr>process_id = pid, memory_size_w = sz\<rparr>]"
    using enqueue_queue_ok(2) [of sys sz pid] by blast
  ultimately show ?thesis by blast
qed

theorem no_fit_returns_minus_one_witness:
  "(\<forall>j<num_blocks blocked_memory. \<not> fits blocked_memory 60 j) \<and>
   (\<exists>sys'. first_fit_allocate blocked_memory 5 60 = Inr (sys', - 1) \<and>
      block_table sys' = block_table blocked_memory \<and>
      process_table sys' = process_table blocked_memory \<and>
      waiting sys' = waiting blocked_memory @ [\<lparr>process_id = 5, memory_size_w = 60\<rparr>])"
proof -
  have h: "\<forall>j<num_blocks blocked_memory. \<not> fits blocked_memory 60 j"
    by (simp add: blocked_memory_def fits_def less_Suc_eq numeral_2_eq_2)
  have q: "wait_queue_count blocked_memory < MAX_WAIT_QUEUE \<and> queue_ok blocked_memory \<and> (0::int) < 60"
    by (simp add: queue_ok_def waiting_def blocked_memory_def MAX_WAIT_QUEUE_def
          numeral_2_eq_2)
  from no_fit_returns_minus_one [OF h, of 5] q h show ?thesis by blast
qed

text \<open>
  \<open>free_memory\<close> for an id that no active entry carries prints "not found" and
  leaves the state unchanged.
\<close>

theorem free_without_active_entry:
  assumes "\<forall>i<num_processes sys.
      \<not> (id_p (processes sys ! i) = pid \<and> is_active (processes sys ! i))"
  shows "free_memory sys pid = Inr (NotFound, sys)"
  using free_memory_loop_no_match [of 0 sys pid] assms by (simp add: free_memory_def)

theorem free_without_active_entry_witness:
  "active_processes blocked_memory =
     [\<lparr>id_p = 1, memory_address = 0, memory_size = 300, is_active = True\<rparr>] \<and>
   free_memory blocked_memory 2 = Inr (NotFound, blocked_memory)"
proof -
  have a: "active_processes blocked_memory =
     [\<lparr>id_p = 1, memory_address = 0, memory_size = 300, is_active = True\<rparr>]"
    by code_simp
  have h: "\<forall>i<num_processes blocked_memory.
      \<not> (id_p (processes blocked_memory ! i) = 2 \<and> is_active (processes blocked_memory ! i))"
    by (simp add: blocked_memory_def less_Suc_eq numeral_2_eq_2)
  from free_without_active_entry [OF h] a show ?thesis by simp
qed

text \<open>
  When the sizes entered at the start sum to at most \<open>INT_MAX\<close>, then in the
  state in which a run ends, each block lies within the address space
  fixed at the start, and the total free memory that \<open>get_total_free_memory\<close>
  computes lies between 0 and the size of that space: no sum the program forms
  exceeds the total of the sizes entered, so none wraps around.
\<close>

theorem blocks_within_space:
  assumes "\<forall>sz \<in> set block_sizes. 1 \<le> sz" and "sum_list block_sizes \<le> INT_MAX"
    and "length block_sizes \<le> MAX_BLOCKS"
    and "\<forall>r \<in> set rs. valid_request r"
    and "simulate block_sizes rs = Inr (sys, next_id) \<or> simulate block_sizes rs = Inl (f, sys)"
  shows "(\<forall>i<num_blocks sys.
        0 \<le> start (blocks sys ! i) \<and>
        start (blocks sys ! i) + size_b (blocks sys ! i) \<le> sum_list block_sizes) \<and>
     0 \<le> get_total_free_memory sys \<and> get_total_free_memory sys \<le> sum_list block_sizes"
proof -
  let ?bt = "block_table sys"
  from simulate_reached_invariant [OF assms] have
    c: "contiguous 0 ?bt" and len: "length ?bt = num_blocks sys"
    and nb: "num_blocks sys \<le> length (blocks sys)"
    and total: "sum_list (map size_b ?bt) = sum_list block_sizes"
    by (simp_all add: invariant_def blocks_ok_def block_table_def)
  have inside: "\<forall>i<num_blocks sys.
        0 \<le> start (blocks sys ! i) \<and>
        start (blocks sys ! i) + size_b (blocks sys ! i) \<le> sum_list block_sizes"
    using contiguous_within [OF c] len total by (simp add: block_table_nth)
  have nonneg: "\<forall>b \<in> set ?bt. 0 \<le> size_b b"
    using contiguous_size_pos [OF c] by (auto intro: less_imp_le)
  have le: "sum_list (map size_b (filter is_free ?bt)) \<le> sum_list (map size_b ?bt)"
    using nonneg by (rule sum_list_filter_le)
  with total assms(2) have "sum_list (map size_b (filter is_free ?bt)) \<le> INT_MAX" by simp
  with total_free_loop_sum [of 0 sys 0] nb nonneg
  have free: "get_total_free_memory sys = sum_list (map size_b (filter is_free ?bt))"
    by (simp add: get_total_free_memory_def)
  have "\<forall>b \<in> set (filter is_free ?bt). 0 \<le> size_b b" using nonneg by simp
  then have "0 \<le> sum_list (map size_b (filter is_free ?bt))"
    by (intro sum_list_nonneg) auto
  with le show ?thesis using inside free total by simp
qed

theorem blocks_within_space_witness:
  "\<exists>sys next_id.
     simulate [100, 500, 200, 300, 600] [Allocate 212, Allocate 900, Free 1, Allocate 100] =
       Inr (sys, next_id) \<and>
     0 \<le> start (blocks sys ! 5) \<and>
     start (blocks sys ! 5) + size_b (blocks sys ! 5) \<le> 1700 \<and>
     0 \<le> get_total_free_memory sys \<and> get_total_free_memory sys \<le> 1700"
proof -
  let ?sizes = "[100, 500, 200, 300, 600] :: int list"
  let ?rs = "[Allocate 212, Allocate 900, Free 1, Allocate 100]"
  have "case simulate ?sizes ?rs of Inl f \<Rightarrow> False | Inr (sys, next_id) \<Rightarrow> num_blocks sys = 6"
    by code_simp
  then obtain sys next_id where run: "simulate ?sizes ?rs = Inr (sys, next_id)"
    and nb: "num_blocks sys = 6"
    by (auto split: sum.splits)
  have h1: "\<forall>sz \<in> set ?sizes. 1 \<le> sz" by simp
  have h2: "\<forall>r \<in> set ?rs. valid_request r" by simp
  have h3: "sum_list ?sizes \<le> INT_MAX" by (simp add: INT_MAX_def)
  have h4: "length ?sizes \<le> MAX_BLOCKS" by (simp add: MAX_BLOCKS_def)
  from blocks_within_space [OF h1 h3 h4 h2 disjI1, OF run] nb
  have "0 \<le> start (blocks sys ! 5) \<and>
     start (blocks sys ! 5) + size_b (blocks sys ! 5) \<le> 1700 \<and>
     0 \<le> get_total_free_memory sys \<and> get_total_free_memory sys \<le> 1700"
    by simp
  with run show ?thesis by blast
qed

text \<open>
  The re-enqueueing shown for C1 happens in every state of the drain in which the
  queue is neither empty nor full, the pre-check passes and no block fits the
  head: the attempt returns 0, the drain stops, and the head's request has been
  appended to the queue once more.
\<close>

lemma failed_attempt_duplicates_head:
  assumes "queue_ok sys" and "wait_queue_count sys \<noteq> 0"
    and "wait_queue_count sys < MAX_WAIT_QUEUE"
    and "memory_size_w (wait_queue sys ! wait_queue_front sys) \<le> get_total_free_memory sys"
    and "\<forall>j<num_blocks sys. \<not> fits sys (memory_size_w (wait_queue sys ! wait_queue_front sys)) j"
  shows "\<exists>sys'. try_allocate_waiting_process sys = Inr (sys', 0) \<and>
     drain_wait_queue sys = Inr sys' \<and>
     waiting sys' = waiting sys @ [wait_queue sys ! wait_queue_front sys]"
proof -
  let ?w = "wait_queue sys ! wait_queue_front sys"
  let ?sys' = "fst (add_to_wait_queue sys (process_id ?w) (memory_size_w ?w))"
  from first_fit_allocate_not_found [OF assms(5), of "process_id ?w"] assms(2,4)
  have t: "try_allocate_waiting_process sys = Inr (?sys', 0)"
    by (simp add: try_allocate_waiting_process_def Let_def)
  then have d: "drain_wait_queue sys = Inr ?sys'" by (rule drain_wait_queue_stop)
  from queue_head(2) [OF assms(1,2)] have "0 < memory_size_w ?w" .
  from enqueue_queue_ok(2) [OF assms(1,3) this, of "process_id ?w"]
  have "waiting ?sys' = waiting sys @ [?w]" by simp
  with t d show ?thesis by blast
qed

end
